theory Spec2Isabelle
  imports Main "HOL-Library.Word"
begin

section \<open>uncrypt: the block map of a file and its shadow copy on the raw device\<close>

text \<open>
  A shallow embedding of \<^verbatim>\<open>uncrypt/uncrypt.c\<close>: the raw-device writer
  \<^verbatim>\<open>write_at_offset\<close>, the range coalescer \<^verbatim>\<open>add_block_to_ranges\<close> and the
  pipeline \<^verbatim>\<open>produce_block_map\<close>.

  Conventions of the model.
  \<^item> Everything outside the process is explicit. The file system as the pass sees it is
    an \<open>env\<close>: the result of \<^verbatim>\<open>stat\<close>, the bytes of the source file, whether each
    \<^verbatim>\<open>open\<close> succeeds, and the answer of the \<^verbatim>\<open>FIBMAP\<close> ioctl for each logical
    block. What changes during a call is a \<open>state\<close>: the local variables of
    \<^verbatim>\<open>produce_block_map\<close> together with the map stream, the standard error stream, the
    open descriptors, the two file offsets and the bytes of the raw device.
  \<^item> The results of the \<^verbatim>\<open>read\<close> and \<^verbatim>\<open>write\<close> system calls are scripted: each
    call takes the next entry of a list, an error or the largest number of bytes the
    kernel transfers on that call. A loop that needs another call when the script is
    empty has not returned: the model answers \<open>None\<close>. \<open>None\<close> is also the answer
    where the process does not return at all (division by a zero block size, a
    \<^verbatim>\<open>fprintf\<close> to a null stream).
  \<^item> \<^verbatim>\<open>int\<close> block numbers are integers, with the two's complement wrap-around of
    32 bits written out where the code adds one to a block number. Sizes, offsets in the
    file and loop counters are natural numbers; the model follows the code as long as
    they fit their C types.
  \<^item> Memory returned by \<^verbatim>\<open>malloc\<close> and \<^verbatim>\<open>realloc\<close> is a store from indices to
    values whose initial contents are whatever the incoming state holds, so nothing is
    known about a cell before the code writes it. Allocation itself is taken to succeed.
  \<^item> The messages printed on standard output are not modelled; those on standard error
    are, by kind.
\<close>

type_synonym byte = "8 word"

definition WINDOW_SIZE :: nat where
  "WINDOW_SIZE = 5"

definition wrap32 :: "int \<Rightarrow> int" where
  "wrap32 x = (x + 2147483648) mod 4294967296 - 2147483648"

subsection \<open>Printing decimal numbers\<close>

definition nl :: char where
  "nl = CHR 0x0A"

fun show_nat :: "nat \<Rightarrow> string" where
  "show_nat n =
     (if n < 10 then [''0123456789'' ! n]
      else show_nat (n div 10) @ [''0123456789'' ! (n mod 10)])"

declare show_nat.simps [simp del]

definition show_int :: "int \<Rightarrow> string" where
  "show_int i = (if i < 0 then CHR ''-'' # show_nat (nat (- i)) else show_nat (nat i))"

subsection \<open>The raw device and \<^verbatim>\<open>write_at_offset\<close>\<close>

datatype io_result = IOError | IOBytes nat

record device =
  dev_bytes :: "nat \<Rightarrow> byte"
  dev_pos :: nat

text \<open>
  \<^verbatim>\<open>lseek64(wfd, offset, SEEK_SET)\<close>: a negative offset is refused and the position
  stays where it was; the code ignores the return value.
\<close>

definition lseek64 :: "device \<Rightarrow> int \<Rightarrow> device" where
  "lseek64 d offset = (if 0 \<le> offset then d\<lparr>dev_pos := nat offset\<rparr> else d)"

text \<open>
  What a \<^verbatim>\<open>write\<close> that transfers \<open>n\<close> bytes does to the device: the bytes
  \<open>buffer[from .. from + n)\<close> land at the current position, which advances by \<open>n\<close>.
\<close>

definition dev_store :: "device \<Rightarrow> (nat \<Rightarrow> byte) \<Rightarrow> nat \<Rightarrow> nat \<Rightarrow> device" where
  "dev_store d buffer from n =
     \<lparr>dev_bytes = (\<lambda>a. if dev_pos d \<le> a \<and> a < dev_pos d + n
                         then buffer (from + (a - dev_pos d)) else dev_bytes d a),
      dev_pos = dev_pos d + n\<rparr>"

text \<open>
  The loop of \<^verbatim>\<open>write_at_offset\<close> (lines 64 to 71), from \<open>written\<close> bytes on. The
  result is the return value, the device and the unused rest of the script. The message
  the code prints when a call fails is recorded where \<^verbatim>\<open>produce_block_map\<close> calls
  \<^verbatim>\<open>write_at_offset\<close>.
\<close>

fun write_loop ::
  "(nat \<Rightarrow> byte) \<Rightarrow> nat \<Rightarrow> nat \<Rightarrow> device \<Rightarrow> io_result list \<Rightarrow>
     (int \<times> device \<times> io_result list) option" where
  "write_loop buffer len written d [] =
     (if written < len then None else Some (0, d, []))"
| "write_loop buffer len written d (r # script) =
     (if written < len then
        (case r of
           IOError \<Rightarrow> Some (- 1, d, script)
         | IOBytes c \<Rightarrow>
             (let wrote = min c (len - written)
              in write_loop buffer len (written + wrote) (dev_store d buffer written wrote) script))
      else Some (0, d, r # script))"

definition write_at_offset ::
  "(nat \<Rightarrow> byte) \<Rightarrow> nat \<Rightarrow> device \<Rightarrow> int \<Rightarrow> io_result list \<Rightarrow>
     (int \<times> device \<times> io_result list) option" where
  "write_at_offset buffer len d offset script = write_loop buffer len 0 (lseek64 d offset) script"

subsection \<open>The range coalescer \<^verbatim>\<open>add_block_to_ranges\<close>\<close>

record rng =
  ranges :: "nat \<Rightarrow> int"
  range_alloc :: nat
  range_used :: nat

definition add_block_to_ranges :: "rng \<Rightarrow> int \<Rightarrow> rng" where
  "add_block_to_ranges r new_block =
     (let r1 = (if ranges r (range_used r * 2 - 2) < 0
                then r\<lparr>ranges := (ranges r)(range_used r * 2 - 2 := new_block,
                                              range_used r * 2 - 1 := new_block)\<rparr>
                else r)
      in if new_block = ranges r1 (range_used r1 * 2 - 1)
         then r1\<lparr>ranges := (ranges r1)(range_used r1 * 2 - 1 :=
                                  wrap32 (ranges r1 (range_used r1 * 2 - 1) + 1))\<rparr>
         else
           (let r2 = (if range_used r1 \<ge> range_alloc r1
                      then r1\<lparr>range_alloc := range_alloc r1 * 2\<rparr> else r1);
                u = range_used r2 + 1
            in r2\<lparr>range_used := u,
                  ranges := (ranges r2)(u * 2 - 2 := new_block,
                                        u * 2 - 1 := wrap32 (new_block + 1))\<rparr>))"

text \<open>Lines 193 to 197 of \<^verbatim>\<open>produce_block_map\<close>: one range, both ends \<open>-1\<close>.\<close>

definition init_ranges :: "rng \<Rightarrow> rng" where
  "init_ranges r = \<lparr>ranges = (ranges r)(0 := - 1, 1 := - 1), range_alloc = 1, range_used = 1\<rparr>"

text \<open>The range list as the loop of lines 287 to 289 reads it.\<close>

definition range_list :: "rng \<Rightarrow> (int \<times> int) list" where
  "range_list r = map (\<lambda>i. (ranges r (i * 2), ranges r (i * 2 + 1))) [0..<range_used r]"

definition range_lines :: "rng \<Rightarrow> string" where
  "range_lines r =
     concat (map (\<lambda>(s, e). show_int s @ '' '' @ show_int e @ [nl]) (range_list r))"

subsection \<open>The environment and the state of a pass\<close>

datatype desc = MapStream | SrcFd | DevFd

datatype diag =
    FailedStat | FailedOpenRead | FailedOpenWrite
  | FailedFindBlock nat | ErrorWriting int | FailedRead

datatype event = Resolved nat int | SlotAdmitted nat | SlotFlushed nat

record env =
  stat_blksize :: "nat option"
  src_data :: "byte list"
  fopen_ok :: bool
  open_src_ok :: bool
  open_dev_ok :: bool
  fibmap :: "nat \<Rightarrow> int option"

text \<open>
  \<open>stat_blksize\<close> is \<open>None\<close> when \<^verbatim>\<open>stat\<close> fails and \<^verbatim>\<open>st_blksize\<close> otherwise;
  \<^verbatim>\<open>st_size\<close> is the length of \<open>src_data\<close>. \<open>fibmap\<close> is \<open>None\<close> where the ioctl
  fails.

  In the state, \<open>trace\<close> is instrumentation: the successful \<^verbatim>\<open>FIBMAP\<close> queries, and
  the moments a window slot is taken into use and released. Each call starts it afresh.
\<close>

record state =
  mapf :: string
  errlog :: "diag list"
  open_fds :: "desc set"
  src_pos :: nat
  wdev :: device
  rscript :: "io_result list"
  wscript :: "io_result list"
  trace :: "event list"
  rng :: rng
  buffers :: "nat \<Rightarrow> nat \<Rightarrow> byte"
  head_block :: nat
  head :: nat
  tail :: nat
  pos :: nat

subsection \<open>The pipeline \<^verbatim>\<open>produce_block_map\<close>\<close>

text \<open>
  Writing out the head buffer: lines 230 to 244, repeated word for word at lines 269
  to 283.
\<close>

definition flush_head :: "env \<Rightarrow> bool \<Rightarrow> nat \<Rightarrow> state \<Rightarrow> (int \<times> state) option" where
  "flush_head e encrypted st_blksize s =
     (case fibmap e (head_block s) of
        None \<Rightarrow> Some (- 1, s\<lparr>errlog := errlog s @ [FailedFindBlock (head_block s)]\<rparr>)
      | Some block \<Rightarrow>
          (let s1 = s\<lparr>rng := add_block_to_ranges (rng s) block,
                      trace := trace s @ [Resolved (head_block s) block]\<rparr>
           in if encrypted then
                (case write_at_offset (buffers s1 (head s1)) st_blksize (wdev s1)
                        (int st_blksize * block) (wscript s1) of
                   None \<Rightarrow> None
                 | Some (r, d, rest) \<Rightarrow>
                     (let s2 = s1\<lparr>wdev := d, wscript := rest\<rparr>
                      in if r \<noteq> 0
                         then Some (- 1, s2\<lparr>errlog := errlog s2 @
                                                 [ErrorWriting (int st_blksize * block)]\<rparr>)
                         else Some (0, s2\<lparr>head := (head s2 + 1) mod WINDOW_SIZE,
                                         head_block := head_block s2 + 1,
                                         trace := trace s2 @ [SlotFlushed (head s2)]\<rparr>)))
              else Some (0, s1\<lparr>head := (head s1 + 1) mod WINDOW_SIZE,
                              head_block := head_block s1 + 1,
                              trace := trace s1 @ [SlotFlushed (head s1)]\<rparr>)))"

text \<open>
  The read loop of lines 249 to 258, on one buffer. A \<^verbatim>\<open>read\<close> transfers at most
  what is asked for and at most what the file has left. The result is the return code
  (\<open>-1\<close> where the code returns from the pass), the buffer, \<open>so_far\<close>, \<open>pos\<close>, the file
  offset and the rest of the script.
\<close>

fun read_loop ::
  "byte list \<Rightarrow> nat \<Rightarrow> (nat \<Rightarrow> byte) \<Rightarrow> nat \<Rightarrow> nat \<Rightarrow> nat \<Rightarrow> io_result list \<Rightarrow>
     (int \<times> (nat \<Rightarrow> byte) \<times> nat \<times> nat \<times> nat \<times> io_result list) option" where
  "read_loop dat st_blksize buf so_far p fp [] =
     (if so_far < st_blksize \<and> p < length dat then None
      else Some (0, buf, so_far, p, fp, []))"
| "read_loop dat st_blksize buf so_far p fp (r # script) =
     (if so_far < st_blksize \<and> p < length dat then
        (case r of
           IOError \<Rightarrow> Some (- 1, buf, so_far, p, fp, script)
         | IOBytes c \<Rightarrow>
             (let this_read = min (min c (st_blksize - so_far)) (length dat - fp)
              in read_loop dat st_blksize
                   (\<lambda>i. if so_far \<le> i \<and> i < so_far + this_read
                        then dat ! (fp + (i - so_far)) else buf i)
                   (so_far + this_read) (p + this_read) (fp + this_read) script))
      else Some (0, buf, so_far, p, fp, r # script))"

text \<open>Reading the next block to the tail buffer: lines 247 to 264.\<close>

definition read_next :: "env \<Rightarrow> bool \<Rightarrow> nat \<Rightarrow> state \<Rightarrow> (int \<times> state) option" where
  "read_next e encrypted st_blksize s =
     (if encrypted then
        (case read_loop (src_data e) st_blksize (buffers s (tail s)) 0 (pos s) (src_pos s)
                (rscript s) of
           None \<Rightarrow> None
         | Some (r, buf, so_far, p, fp, rest) \<Rightarrow>
             (let s1 = s\<lparr>buffers := (buffers s)(tail s := buf), pos := p, src_pos := fp,
                         rscript := rest\<rparr>
              in if r \<noteq> 0 then Some (- 1, s1\<lparr>errlog := errlog s1 @ [FailedRead]\<rparr>)
                 else Some (0, s1)))
      else Some (0, s\<lparr>pos := pos s + st_blksize\<rparr>))"

text \<open>One turn of the loop of lines 228 to 266.\<close>

definition admit_step :: "env \<Rightarrow> bool \<Rightarrow> nat \<Rightarrow> state \<Rightarrow> (int \<times> state) option" where
  "admit_step e encrypted st_blksize s =
     (case (if (tail s + 1) mod WINDOW_SIZE = head s
            then flush_head e encrypted st_blksize s else Some (0, s)) of
        None \<Rightarrow> None
      | Some (r, s1) \<Rightarrow>
          if r \<noteq> 0 then Some (- 1, s1)
          else
            (case read_next e encrypted st_blksize
                    (s1\<lparr>trace := trace s1 @ [SlotAdmitted (tail s1)]\<rparr>) of
               None \<Rightarrow> None
             | Some (r2, s2) \<Rightarrow>
                 if r2 \<noteq> 0 then Some (- 1, s2)
                 else Some (0, s2\<lparr>tail := (tail s2 + 1) mod WINDOW_SIZE\<rparr>)))"

partial_function (option) admit_loop ::
  "env \<Rightarrow> bool \<Rightarrow> nat \<Rightarrow> state \<Rightarrow> (int \<times> state) option" where
  "admit_loop e encrypted st_blksize s =
     (if pos s < length (src_data e) then
        (case admit_step e encrypted st_blksize s of
           None \<Rightarrow> None
         | Some (r, s1) \<Rightarrow>
             if r \<noteq> 0 then Some (- 1, s1) else admit_loop e encrypted st_blksize s1)
      else Some (0, s))"

partial_function (option) drain_loop ::
  "env \<Rightarrow> bool \<Rightarrow> nat \<Rightarrow> state \<Rightarrow> (int \<times> state) option" where
  "drain_loop e encrypted st_blksize s =
     (if head s \<noteq> tail s then
        (case flush_head e encrypted st_blksize s of
           None \<Rightarrow> None
         | Some (r, s1) \<Rightarrow>
             if r \<noteq> 0 then Some (- 1, s1) else drain_loop e encrypted st_blksize s1)
      else Some (0, s))"

declare admit_loop.simps [code]
declare drain_loop.simps [code]

text \<open>The first two lines of the map, printed by line 199.\<close>

definition header :: "string \<Rightarrow> nat \<Rightarrow> nat \<Rightarrow> string" where
  "header blk_dev st_size st_blksize =
     blk_dev @ [nl] @ show_int (int st_size) @ '' '' @ show_nat st_blksize @ [nl]"

definition produce_block_map :: "env \<Rightarrow> string \<Rightarrow> bool \<Rightarrow> state \<Rightarrow> (int \<times> state) option" where
  "produce_block_map e blk_dev encrypted s0 =
     (let s1 = (if fopen_ok e
                then s0\<lparr>mapf := [], open_fds := insert MapStream (open_fds s0), trace := []\<rparr>
                else s0\<lparr>trace := []\<rparr>)
      in case stat_blksize e of
           None \<Rightarrow> Some (- 1, s1\<lparr>errlog := errlog s1 @ [FailedStat]\<rparr>)
         | Some st_blksize \<Rightarrow>
             if st_blksize = 0 then None
             else if \<not> fopen_ok e then None
             else
               (let s2 = s1\<lparr>rng := init_ranges (rng s1),
                            mapf := mapf s1 @ header blk_dev (length (src_data e)) st_blksize,
                            head_block := 0, head := 0, tail := 0, pos := 0\<rparr>
                in if \<not> open_src_ok e
                   then Some (- 1, s2\<lparr>errlog := errlog s2 @ [FailedOpenRead]\<rparr>)
                   else
                     (let s3 = s2\<lparr>open_fds := insert SrcFd (open_fds s2), src_pos := 0\<rparr>
                      in if encrypted \<and> \<not> open_dev_ok e
                         then Some (- 1, s3\<lparr>errlog := errlog s3 @ [FailedOpenWrite]\<rparr>)
                         else
                           (let s4 = (if encrypted
                                      then s3\<lparr>open_fds := insert DevFd (open_fds s3),
                                              wdev := (wdev s3)\<lparr>dev_pos := 0\<rparr>\<rparr>
                                      else s3)
                            in case admit_loop e encrypted st_blksize s4 of
                                 None \<Rightarrow> None
                               | Some (r, s5) \<Rightarrow>
                                   if r \<noteq> 0 then Some (- 1, s5)
                                   else
                                     (case drain_loop e encrypted st_blksize s5 of
                                        None \<Rightarrow> None
                                      | Some (r', s6) \<Rightarrow>
                                          if r' \<noteq> 0 then Some (- 1, s6)
                                          else Some (0,
                                            s6\<lparr>mapf := mapf s6
                                                   @ show_int (int (range_used (rng s6))) @ [nl]
                                                   @ range_lines (rng s6),
                                               open_fds := open_fds s6 - {MapStream, SrcFd}
                                                   - (if encrypted then {DevFd} else {})\<rparr>))))))"

subsection \<open>Notions used in the statements\<close>

text \<open>The bytes a script of system call results offers in all.\<close>

definition total_bytes :: "io_result list \<Rightarrow> nat" where
  "total_bytes script = sum_list (map (\<lambda>r. case r of IOError \<Rightarrow> 0 | IOBytes c \<Rightarrow> c) script)"

text \<open>
  A physical block number as the coalescer can hold it: not negative, and small enough an
  \<^verbatim>\<open>int\<close> for the block after it to be one too.
\<close>

definition phys_block :: "int \<Rightarrow> bool" where
  "phys_block b \<longleftrightarrow> 0 \<le> b \<and> b < 2147483647"

text \<open>The blocks of a range list: each range \<open>[start, end)\<close> listed in order.\<close>

definition expand :: "(int \<times> int) list \<Rightarrow> int list" where
  "expand rs = concat (map (\<lambda>(s, e). [s..e - 1]) rs)"

text \<open>The number of places in a sequence where a block does not follow its predecessor.\<close>

definition breaks :: "int list \<Rightarrow> nat" where
  "breaks bs = length (filter (\<lambda>i. bs ! i \<noteq> bs ! (i - 1) + 1) [1..<length bs])"

text \<open>The sum of the lengths of the ranges.\<close>

definition span :: "(int \<times> int) list \<Rightarrow> int" where
  "span rs = sum_list (map (\<lambda>(s, e). e - s) rs)"

text \<open>
  The number of turns of the loop of lines 228 to 266, one for each logical block:
  the file size divided by the block size, rounded up.
\<close>

definition logical_blocks :: "nat \<Rightarrow> nat \<Rightarrow> nat" where
  "logical_blocks st_size st_blksize = (st_size + st_blksize - 1) div st_blksize"

text \<open>What the instrumentation recorded, by kind, in the order it happened.\<close>

fun admitted_slots :: "event list \<Rightarrow> nat list" where
  "admitted_slots [] = []"
| "admitted_slots (SlotAdmitted k # tr) = k # admitted_slots tr"
| "admitted_slots (Resolved j p # tr) = admitted_slots tr"
| "admitted_slots (SlotFlushed k # tr) = admitted_slots tr"

fun flushed_slots :: "event list \<Rightarrow> nat list" where
  "flushed_slots [] = []"
| "flushed_slots (SlotFlushed k # tr) = k # flushed_slots tr"
| "flushed_slots (Resolved j p # tr) = flushed_slots tr"
| "flushed_slots (SlotAdmitted k # tr) = flushed_slots tr"

fun resolutions :: "event list \<Rightarrow> (nat \<times> int) list" where
  "resolutions [] = []"
| "resolutions (Resolved j p # tr) = (j, p) # resolutions tr"
| "resolutions (SlotAdmitted k # tr) = resolutions tr"
| "resolutions (SlotFlushed k # tr) = resolutions tr"

text \<open>The window slots in use after a sequence of events: taken into use and not yet released.\<close>

definition in_flight :: "event list \<Rightarrow> nat" where
  "in_flight tr = length (admitted_slots tr) - length (flushed_slots tr)"

text \<open>
  A script on which every call succeeds and transfers at least one byte, as the calls on
  a regular file and on a block device do.
\<close>

definition good_script :: "io_result list \<Rightarrow> bool" where
  "good_script script \<longleftrightarrow> (\<forall>x\<in>set script. \<exists>c>0. x = IOBytes c)"

text \<open>What a call leaves behind for its caller: the return value with the map output.\<close>

definition map_output :: "(int \<times> state) option \<Rightarrow> (int \<times> string) option" where
  "map_output res = map_option (\<lambda>(r, s). (r, mapf s)) res"

text \<open>The return value with the descriptors that are open when the call returns.\<close>

definition open_after :: "(int \<times> state) option \<Rightarrow> (int \<times> desc set) option" where
  "open_after res = map_option (\<lambda>(r, s). (r, open_fds s)) res"






subsection \<open>Worked examples\<close>

text \<open>
  A state before a call: nothing open, a device of zero bytes, scripts on which every
  \<^verbatim>\<open>read\<close> and \<^verbatim>\<open>write\<close> transfers at most three bytes, and an old map file.
\<close>

definition example_state :: state where
  "example_state =
     \<lparr>mapf = ''old map'', errlog = [], open_fds = {}, src_pos = 0,
      wdev = \<lparr>dev_bytes = (\<lambda>_. 0), dev_pos = 0\<rparr>,
      rscript = replicate 40 (IOBytes 3), wscript = replicate 40 (IOBytes 3), trace = [],
      rng = \<lparr>ranges = (\<lambda>_. 0), range_alloc = 0, range_used = 0\<rparr>,
      buffers = (\<lambda>_ _. 0), head_block = 0, head = 0, tail = 0, pos = 0\<rparr>"

text \<open>The file of the comment at the head of \<^verbatim>\<open>uncrypt.c\<close>: 49652 bytes in 13 blocks.\<close>

definition example_blocks :: "int list" where
  "example_blocks = [1000, 1001, 1002, 1003, 1004, 1005, 1006, 1007, 2100, 2101, 30, 31, 32]"

definition example_env :: env where
  "example_env =
     \<lparr>stat_blksize = Some 4096, src_data = replicate 49652 0, fopen_ok = True,
      open_src_ok = True, open_dev_ok = True,
      fibmap = (\<lambda>j. if j < 13 then Some (example_blocks ! j) else None)\<rparr>"

text \<open>A file of 13 bytes in blocks of 4 bytes, on the blocks 10, 11, 3 and 7.\<close>

definition small_env :: env where
  "small_env =
     \<lparr>stat_blksize = Some 4, src_data = [1, 2, 3, 4, 5, 6, 7, 8, 9, 10, 11, 12, 13],
      fopen_ok = True, open_src_ok = True, open_dev_ok = True,
      fibmap = (\<lambda>j. if j < 4 then Some ([10, 11, 3, 7] ! j) else None)\<rparr>"

text \<open>An empty file.\<close>

definition empty_env :: env where
  "empty_env =
     \<lparr>stat_blksize = Some 4096, src_data = [], fopen_ok = True,
      open_src_ok = True, open_dev_ok = True, fibmap = (\<lambda>j. None)\<rparr>"

text \<open>The map the comment at the head of \<^verbatim>\<open>uncrypt.c\<close> shows, for a device path.\<close>

definition example_map :: "string \<Rightarrow> string" where
  "example_map blk_dev =
     blk_dev @ [nl] @ ''49652 4096'' @ [nl] @ ''3'' @ [nl] @
     ''1000 1008'' @ [nl] @ ''2100 2102'' @ [nl] @ ''30 33'' @ [nl]"

text \<open>A file of one byte none of whose blocks the kernel can map.\<close>

definition unmapped_env :: env where
  "unmapped_env =
     \<lparr>stat_blksize = Some 4096, src_data = [7], fopen_ok = True,
      open_src_ok = True, open_dev_ok = True, fibmap = (\<lambda>j. None)\<rparr>"


subsection \<open>Invariants used in the proofs\<close>

text \<open>The coalescer after the blocks \<open>bs\<close>, fed to it from the initial state.\<close>

definition coalesced :: "rng \<Rightarrow> int list \<Rightarrow> bool" where
  "coalesced R bs \<longleftrightarrow>
     1 \<le> range_used R \<and> range_used R \<le> range_alloc R \<and>
     (if bs = [] then range_used R = 1 \<and> ranges R 0 < 0
      else 0 \<le> ranges R (range_used R * 2 - 2) \<and>
           ranges R (range_used R * 2 - 2) \<le> last bs \<and>
           ranges R (range_used R * 2 - 1) = last bs + 1 \<and>
           expand (range_list R) = bs \<and>
           span (range_list R) = int (length bs) \<and>
           range_used R = 1 + breaks bs)"

text \<open>The first \<open>n\<close> pairs of an array of range ends.\<close>

definition pairs :: "(nat \<Rightarrow> int) \<Rightarrow> nat \<Rightarrow> (int \<times> int) list" where
  "pairs f n = map (\<lambda>i. (f (i * 2), f (i * 2 + 1))) [0..<n]"

text \<open>At every moment of a trace fewer slots are in use than the window has.\<close>

definition bounded :: "event list \<Rightarrow> bool" where
  "bounded tr \<longleftrightarrow>
     (\<forall>k\<le>length tr. length (flushed_slots (take k tr)) \<le> length (admitted_slots (take k tr)) \<and>
                     in_flight (take k tr) < WINDOW_SIZE)"

text \<open>
  The cursors at the head of either loop, in terms of the number of blocks admitted and
  the number flushed.
\<close>

definition idx_inv :: "env \<Rightarrow> bool \<Rightarrow> nat \<Rightarrow> state \<Rightarrow> bool" where
  "idx_inv e enc b s \<longleftrightarrow>
     length (flushed_slots (trace s)) = head_block s \<and>
     head_block s \<le> length (admitted_slots (trace s)) \<and>
     length (admitted_slots (trace s)) < head_block s + WINDOW_SIZE \<and>
     head s = head_block s mod WINDOW_SIZE \<and>
     tail s = length (admitted_slots (trace s)) mod WINDOW_SIZE \<and>
     (if enc then pos s = min (length (admitted_slots (trace s)) * b) (length (src_data e)) \<and>
                  src_pos s = pos s
      else pos s = length (admitted_slots (trace s)) * b) \<and>
     (0 < length (admitted_slots (trace s)) \<longrightarrow>
        (length (admitted_slots (trace s)) - 1) * b < length (src_data e)) \<and>
     bounded (trace s) \<and>
     (\<forall>i<length (admitted_slots (trace s)). admitted_slots (trace s) ! i = i mod WINDOW_SIZE) \<and>
     flushed_slots (trace s) = map (\<lambda>j. j mod WINDOW_SIZE) [0..<head_block s]"

text \<open>The blocks resolved so far and the ranges built from them.\<close>

definition res_inv :: "env \<Rightarrow> rng \<Rightarrow> state \<Rightarrow> bool" where
  "res_inv e R0 s \<longleftrightarrow>
     (\<forall>j<head_block s. fibmap e j \<noteq> None) \<and>
     resolutions (trace s) = map (\<lambda>j. (j, the (fibmap e j))) [0..<head_block s] \<and>
     rng s = foldl add_block_to_ranges R0 (map (\<lambda>j. the (fibmap e j)) [0..<head_block s])"

text \<open>What the loops leave alone.\<close>

definition frame_inv :: "string \<Rightarrow> diag list \<Rightarrow> desc set \<Rightarrow> state \<Rightarrow> bool" where
  "frame_inv M E F s \<longleftrightarrow> mapf s = M \<and> errlog s = E \<and> open_fds s = F"

text \<open>
  The state in which the first loop of \<^verbatim>\<open>produce_block_map\<close> starts, when everything
  before it went well, and what the last lines make of the state the second loop leaves.
\<close>

definition start_state :: "env \<Rightarrow> string \<Rightarrow> bool \<Rightarrow> nat \<Rightarrow> state \<Rightarrow> state" where
  "start_state e blk_dev encrypted st_blksize s0 =
     (let s1 = s0\<lparr>mapf := [], open_fds := insert MapStream (open_fds s0), trace := []\<rparr>;
          s2 = s1\<lparr>rng := init_ranges (rng s1),
                   mapf := mapf s1 @ header blk_dev (length (src_data e)) st_blksize,
                   head_block := 0, head := 0, tail := 0, pos := 0\<rparr>;
          s3 = s2\<lparr>open_fds := insert SrcFd (open_fds s2), src_pos := 0\<rparr>
      in if encrypted
         then s3\<lparr>open_fds := insert DevFd (open_fds s3), wdev := (wdev s3)\<lparr>dev_pos := 0\<rparr>\<rparr>
         else s3)"

definition finish :: "bool \<Rightarrow> state \<Rightarrow> state" where
  "finish encrypted s =
     s\<lparr>mapf := mapf s @ show_int (int (range_used (rng s))) @ [nl] @ range_lines (rng s),
       open_fds := open_fds s - {MapStream, SrcFd} - (if encrypted then {DevFd} else {})\<rparr>"

text \<open>What is still on offer: an answer for every logical block, and results for every
  byte left to read and to write.\<close>

definition supplied :: "env \<Rightarrow> bool \<Rightarrow> nat \<Rightarrow> state \<Rightarrow> bool" where
  "supplied e enc b s \<longleftrightarrow>
     (\<forall>j<logical_blocks (length (src_data e)) b. fibmap e j \<noteq> None) \<and>
     (enc \<longrightarrow> good_script (rscript s) \<and> good_script (wscript s) \<and>
        length (src_data e) - pos s \<le> length (rscript s) \<and>
        (logical_blocks (length (src_data e)) b - head_block s) * b \<le> length (wscript s))"

text \<open>Two range arrays that differ at most in the cells the code has not written.\<close>

definition ranges_agree :: "rng \<Rightarrow> rng \<Rightarrow> bool" where
  "ranges_agree r r' \<longleftrightarrow>
     1 \<le> range_used r \<and> range_used r = range_used r' \<and> range_alloc r = range_alloc r' \<and>
     (\<forall>i<range_used r * 2. ranges r i = ranges r' i)"



section \<open>The raw-device writer\<close>

lemma total_bytes_simps [simp]:
  "total_bytes [] = 0"
  "total_bytes (IOError # rs) = total_bytes rs"
  "total_bytes (IOBytes c # rs) = c + total_bytes rs"
  by (simp_all add: total_bytes_def)

lemma write_loop_None:
  "write_loop buffer len w d script = None \<longleftrightarrow>
     IOError \<notin> set script \<and> w + total_bytes script < len"
proof (induction script arbitrary: w d)
  case Nil
  show ?case by simp
next
  case (Cons r script)
  show ?case
  proof (cases r)
    case IOError
    then show ?thesis by simp
  next
    case (IOBytes c)
    then show ?thesis
      using Cons.IH [of "w + min c (len - w)" "dev_store d buffer w (min c (len - w))"]
      by (auto simp: Let_def min_def)
  qed
qed

lemma write_loop_Some:
  assumes "write_loop buffer len w d script = Some (r, d', rest)"
  shows "\<exists>used. script = used @ rest \<and> (r = - 1 \<longleftrightarrow> IOError \<in> set used) \<and> (r = 0 \<or> r = - 1) \<and>
           (r = 0 \<longrightarrow> w \<le> len \<longrightarrow>
              dev_pos d' = dev_pos d + (len - w) \<and>
              (\<forall>a. dev_bytes d' a =
                 (if dev_pos d \<le> a \<and> a < dev_pos d + (len - w)
                  then buffer (w + (a - dev_pos d)) else dev_bytes d a)))"
  using assms
proof (induction script arbitrary: w d)
  case Nil
  then show ?case by (auto split: if_splits)
next
  case (Cons x script)
  show ?case
  proof (cases "w < len")
    case False
    with Cons.prems show ?thesis by auto
  next
    case True
    show ?thesis
    proof (cases x)
      case IOError
      with True Cons.prems show ?thesis by (intro exI [of _ "[IOError]"]) auto
    next
      case (IOBytes c)
      define k where "k = min c (len - w)"
      from True IOBytes Cons.prems
      have run: "write_loop buffer len (w + k) (dev_store d buffer w k) script = Some (r, d', rest)"
        by (simp add: k_def Let_def)
      from Cons.IH [OF run] obtain used where
        u: "script = used @ rest" "(r = - 1 \<longleftrightarrow> IOError \<in> set used)" "r = 0 \<or> r = - 1"
        and dv: "r = 0 \<longrightarrow> w + k \<le> len \<longrightarrow>
              dev_pos d' = dev_pos (dev_store d buffer w k) + (len - (w + k)) \<and>
              (\<forall>a. dev_bytes d' a =
                 (if dev_pos (dev_store d buffer w k) \<le> a \<and> a < dev_pos (dev_store d buffer w k) + (len - (w + k))
                  then buffer (w + k + (a - dev_pos (dev_store d buffer w k))) else dev_bytes (dev_store d buffer w k) a))"
        by blast
      have kle: "w + k \<le> len" using True by (simp add: k_def)
      have "x # script = (x # used) @ rest" using u by simp
      moreover have "(r = - 1 \<longleftrightarrow> IOError \<in> set (x # used))" using u IOBytes by simp
      moreover have "r = 0 \<longrightarrow> w \<le> len \<longrightarrow>
              dev_pos d' = dev_pos d + (len - w) \<and>
              (\<forall>a. dev_bytes d' a =
                 (if dev_pos d \<le> a \<and> a < dev_pos d + (len - w)
                  then buffer (w + (a - dev_pos d)) else dev_bytes d a))"
        using dv kle by (auto simp: dev_store_def)
      ultimately show ?thesis using u(3) by blast
    qed
  qed
qed

text \<open>
  Claim C6. \<^verbatim>\<open>write_at_offset\<close> at a byte offset of the device (an offset that is not
  negative), for every buffer, size and script of results of the \<^verbatim>\<open>write\<close> calls.
  It has not returned exactly when no call reported an error and the calls made so far
  transferred fewer than \<open>len\<close> bytes in all. When it returns, it returns \<open>-1\<close> if and
  only if one of the calls it made reported an error, and \<open>0\<close> otherwise; a short write
  is not an error. On success the device holds the buffer at \<open>[offset, offset + len)\<close>
  and is unchanged elsewhere.
\<close>

theorem write_at_offset_correct:
  assumes "0 \<le> offset"
  shows "(write_at_offset buffer len d offset script = None \<longleftrightarrow>
            IOError \<notin> set script \<and> total_bytes script < len) \<and>
         (\<forall>r d' rest. write_at_offset buffer len d offset script = Some (r, d', rest) \<longrightarrow>
            (\<exists>used. script = used @ rest \<and> (r = - 1 \<longleftrightarrow> IOError \<in> set used)) \<and>
            (r = 0 \<or> r = - 1) \<and>
            (r = 0 \<longrightarrow>
               (\<forall>i<len. dev_bytes d' (nat offset + i) = buffer i) \<and>
               (\<forall>a. a < nat offset \<or> nat offset + len \<le> a \<longrightarrow> dev_bytes d' a = dev_bytes d a)))"
proof -
  have A: "write_at_offset buffer len d offset script = None \<longleftrightarrow>
            IOError \<notin> set script \<and> total_bytes script < len"
    by (simp add: write_at_offset_def write_loop_None)
  have B: "(\<exists>used. script = used @ rest \<and> (r = - 1 \<longleftrightarrow> IOError \<in> set used)) \<and>
            (r = 0 \<or> r = - 1) \<and>
            (r = 0 \<longrightarrow>
               (\<forall>i<len. dev_bytes d' (nat offset + i) = buffer i) \<and>
               (\<forall>a. a < nat offset \<or> nat offset + len \<le> a \<longrightarrow> dev_bytes d' a = dev_bytes d a))"
    if run: "write_at_offset buffer len d offset script = Some (r, d', rest)" for r d' rest
  proof -
    from run have wl: "write_loop buffer len 0 (lseek64 d offset) script = Some (r, d', rest)"
      by (simp add: write_at_offset_def)
    from write_loop_Some [OF wl] obtain used where
      u: "script = used @ rest" "(r = - 1 \<longleftrightarrow> IOError \<in> set used)" "r = 0 \<or> r = - 1"
      and dv: "r = 0 \<longrightarrow> (\<forall>a. dev_bytes d' a =
                 (if dev_pos (lseek64 d offset) \<le> a \<and> a < dev_pos (lseek64 d offset) + len
                  then buffer (a - dev_pos (lseek64 d offset)) else dev_bytes (lseek64 d offset) a))"
      by auto
    have "\<exists>used. script = used @ rest \<and> (r = - 1 \<longleftrightarrow> IOError \<in> set used)"
      using u by blast
    moreover have "r = 0 \<longrightarrow>
               (\<forall>i<len. dev_bytes d' (nat offset + i) = buffer i) \<and>
               (\<forall>a. a < nat offset \<or> nat offset + len \<le> a \<longrightarrow> dev_bytes d' a = dev_bytes d a)"
      using dv assms by (auto simp: lseek64_def)
    ultimately show ?thesis using u(3) by blast
  qed
  show ?thesis using A B by blast
qed


theorem write_at_offset_correct_witness:
  "(0::int) \<le> 4 \<and>
   (\<exists>d' rest. write_at_offset (\<lambda>i. of_nat i + 7) 3 \<lparr>dev_bytes = (\<lambda>_. 0), dev_pos = 9\<rparr> 4
        [IOBytes 1, IOBytes 0, IOBytes 5, IOError] = Some (0, d', rest) \<and>
      rest = [IOError] \<and>
      (\<forall>i<3. dev_bytes d' (4 + i) = of_nat i + 7) \<and> dev_bytes d' 3 = 0 \<and> dev_bytes d' 7 = 0)"
proof -
  let ?buf = "(\<lambda>i. of_nat i + 7) :: nat \<Rightarrow> byte"
  let ?d = "\<lparr>dev_bytes = (\<lambda>_. 0), dev_pos = 9\<rparr>"
  let ?script = "[IOBytes 1, IOBytes 0, IOBytes 5, IOError]"
  have le: "(0::int) \<le> 4" by simp
  obtain d' where run: "write_at_offset ?buf 3 ?d 4 ?script = Some (0, d', [IOError])"
    by (simp add: write_at_offset_def lseek64_def)
  from write_at_offset_correct [OF le, of ?buf 3 ?d ?script] run
  have "(\<forall>i<3. dev_bytes d' (nat 4 + i) = ?buf i) \<and>
        (\<forall>a. a < nat 4 \<or> nat 4 + 3 \<le> a \<longrightarrow> dev_bytes d' a = dev_bytes ?d a)"
    by blast
  then have "(\<forall>i<3. dev_bytes d' (4 + i) = ?buf i) \<and> dev_bytes d' 3 = 0 \<and> dev_bytes d' 7 = 0"
    by simp
  with le run show ?thesis by blast
qed

section \<open>The range coalescer\<close>

lemma wrap32_id: "- 2147483648 \<le> x \<Longrightarrow> x < 2147483648 \<Longrightarrow> wrap32 x = x"
  by (simp add: wrap32_def)

lemma wrap32_succ: "phys_block b \<Longrightarrow> wrap32 (b + 1) = b + 1"
  by (rule wrap32_id) (simp_all add: phys_block_def)

lemma add_block_first:
  assumes "range_used R = Suc n" "ranges R (n * 2) < 0" "phys_block b"
  shows "add_block_to_ranges R b = R\<lparr>ranges := (ranges R)(n * 2 := b, Suc (n * 2) := b + 1)\<rparr>"
  using assms by (simp add: add_block_to_ranges_def wrap32_succ)

lemma add_block_extend:
  assumes "range_used R = Suc n" "0 \<le> ranges R (n * 2)" "ranges R (Suc (n * 2)) = b" "phys_block b"
  shows "add_block_to_ranges R b = R\<lparr>ranges := (ranges R)(Suc (n * 2) := b + 1)\<rparr>"
  using assms by (simp add: add_block_to_ranges_def wrap32_succ)

lemma add_block_new:
  assumes "range_used R = Suc n" "0 \<le> ranges R (n * 2)" "ranges R (Suc (n * 2)) \<noteq> b" "phys_block b"
  shows "add_block_to_ranges R b =
           R\<lparr>range_alloc := (if range_alloc R \<le> Suc n then range_alloc R * 2 else range_alloc R),
             range_used := Suc (Suc n),
             ranges := (ranges R)(Suc n * 2 := b, Suc (Suc n * 2) := b + 1)\<rparr>"
  using assms by (auto simp add: add_block_to_ranges_def wrap32_succ Let_def)

lemma range_list_pairs: "range_list R = pairs (ranges R) (range_used R)"
  by (simp add: range_list_def pairs_def)

lemma pairs_Suc: "pairs f (Suc n) = pairs f n @ [(f (n * 2), f (Suc (n * 2)))]"
  by (simp add: pairs_def)

lemma pairs_upd: "n * 2 \<le> k \<Longrightarrow> pairs (f(k := v)) n = pairs f n"
  by (auto simp: pairs_def)

lemma expand_snoc: "expand (rs @ [(s, e)]) = expand rs @ [s..e - 1]"
  by (simp add: expand_def)

lemma span_snoc: "span (rs @ [(s, e)]) = span rs + (e - s)"
  by (simp add: span_def)

lemma breaks_snoc:
  assumes "bs \<noteq> []"
  shows "breaks (bs @ [b]) = breaks bs + (if b \<noteq> last bs + 1 then 1 else 0)"
proof -
  have k: "1 \<le> length bs" using assms by (cases bs) auto
  have "[1..<length (bs @ [b])] = [1..<length bs] @ [length bs]"
    using k by simp
  moreover have "filter (\<lambda>i. (bs @ [b]) ! i \<noteq> (bs @ [b]) ! (i - 1) + 1) [1..<length bs]
      = filter (\<lambda>i. bs ! i \<noteq> bs ! (i - 1) + 1) [1..<length bs]"
    by (rule filter_cong) (auto simp: nth_append)
  moreover have "(bs @ [b]) ! (length bs - 1) = last bs"
    using assms k by (simp add: nth_append last_conv_nth)
  ultimately show ?thesis
    by (simp add: breaks_def)
qed

lemma coalesced_init: "coalesced (init_ranges r) []"
  by (simp add: coalesced_def init_ranges_def)

lemma coalesced_step:
  assumes c: "coalesced R bs" and b: "phys_block b"
  shows "coalesced (add_block_to_ranges R b) (bs @ [b])"
proof -
  from c obtain n where n: "range_used R = Suc n"
    by (cases "range_used R") (auto simp: coalesced_def)
  show ?thesis
  proof (cases "bs = []")
    case True
    with c n have "n = 0" "ranges R (n * 2) < 0" by (auto simp: coalesced_def)
    with add_block_first [OF n _ b] have
      eq: "add_block_to_ranges R b = R\<lparr>ranges := (ranges R)(0 := b, Suc 0 := b + 1)\<rparr>"
      by simp
    show ?thesis
      using c n True b \<open>n = 0\<close>
      by (simp add: eq coalesced_def range_list_pairs pairs_Suc pairs_def expand_def span_def
          breaks_def phys_block_def)
  next
    case False
    with c n have st: "0 \<le> ranges R (n * 2)" "ranges R (n * 2) \<le> last bs"
      and en: "ranges R (Suc (n * 2)) = last bs + 1"
      and ex: "expand (pairs (ranges R) (Suc n)) = bs"
      and sp: "span (pairs (ranges R) (Suc n)) = int (length bs)"
      and br: "Suc n = 1 + breaks bs"
      and al: "Suc n \<le> range_alloc R"
      by (auto simp: coalesced_def range_list_pairs)
    show ?thesis
    proof (cases "b = last bs + 1")
      case True
      with en have "ranges R (Suc (n * 2)) = b" by simp
      from add_block_extend [OF n st(1) this b]
      have eq: "add_block_to_ranges R b = R\<lparr>ranges := (ranges R)(Suc (n * 2) := b + 1)\<rparr>" .
      have up: "[ranges R (n * 2)..b] = [ranges R (n * 2)..last bs] @ [b]"
        using st(2) True by (simp add: upto_rec2)
      have pl: "pairs ((ranges R)(Suc (n * 2) := b + 1)) (Suc n)
          = pairs (ranges R) n @ [(ranges R (n * 2), b + 1)]"
        by (simp add: pairs_Suc pairs_upd)
      have "expand (pairs (ranges R) n) @ [ranges R (n * 2)..last bs] = bs"
        using ex en by (simp add: pairs_Suc expand_snoc)
      then have ex': "expand (pairs ((ranges R)(Suc (n * 2) := b + 1)) (Suc n)) = bs @ [b]"
        by (simp add: pl expand_snoc up)
      have "span (pairs (ranges R) n) + (last bs + 1 - ranges R (n * 2)) = int (length bs)"
        using sp en by (simp add: pairs_Suc span_snoc)
      then have sp': "span (pairs ((ranges R)(Suc (n * 2) := b + 1)) (Suc n)) = int (length bs) + 1"
        unfolding pl span_snoc using True by simp
      show ?thesis
        using n st al br True False ex' sp' eq
        by (simp add: coalesced_def range_list_pairs breaks_snoc)
    next
      case new: False
      with en have "ranges R (Suc (n * 2)) \<noteq> b" by simp
      from add_block_new [OF n st(1) this b]
      have eq: "add_block_to_ranges R b =
           R\<lparr>range_alloc := (if range_alloc R \<le> Suc n then range_alloc R * 2 else range_alloc R),
             range_used := Suc (Suc n),
             ranges := (ranges R)(Suc n * 2 := b, Suc (Suc n * 2) := b + 1)\<rparr>" .
      have pl: "pairs ((ranges R)(Suc n * 2 := b, Suc (Suc n * 2) := b + 1)) (Suc (Suc n))
          = pairs (ranges R) (Suc n) @ [(b, b + 1)]"
        by (simp add: pairs_Suc [of _ "Suc n"] pairs_upd)
      have ex': "expand (pairs ((ranges R)(Suc n * 2 := b, Suc (Suc n * 2) := b + 1)) (Suc (Suc n)))
          = bs @ [b]"
        unfolding pl expand_snoc using ex by simp
      have sp': "span (pairs ((ranges R)(Suc n * 2 := b, Suc (Suc n * 2) := b + 1)) (Suc (Suc n)))
          = int (length bs) + 1"
        unfolding pl span_snoc using sp by simp
      show ?thesis
        using n al br new False ex' sp' eq b
        by (simp add: coalesced_def range_list_pairs breaks_snoc phys_block_def)
    qed
  qed
qed

lemma coalesced_foldl:
  assumes "coalesced R bs" "\<forall>b\<in>set cs. phys_block b"
  shows "coalesced (foldl add_block_to_ranges R cs) (bs @ cs)"
  using assms
proof (induction cs arbitrary: R bs)
  case Nil
  then show ?case by simp
next
  case (Cons c cs)
  from Cons.prems have "coalesced (add_block_to_ranges R c) (bs @ [c])"
    by (simp add: coalesced_step)
  from Cons.IH [OF this] Cons.prems show ?case by simp
qed

lemma coalesced_pass:
  "\<forall>b\<in>set bs. phys_block b \<Longrightarrow> coalesced (foldl add_block_to_ranges (init_ranges r) bs) bs"
  using coalesced_foldl [OF coalesced_init, of bs r] by simp

text \<open>
  Claim C3. For every non-empty sequence \<open>bs\<close> of physical block numbers fed in order
  to \<^verbatim>\<open>add_block_to_ranges\<close>, starting from the state \<^verbatim>\<open>produce_block_map\<close> sets
  up: the lengths of the ranges add up to the number of blocks, and the number of ranges
  is one more than the number of places where a block does not follow its predecessor.
  In particular the next block extends the current range when it follows the last block
  and opens a new range otherwise.
\<close>

theorem coalescer_span_and_count:
  assumes "bs \<noteq> []" and "\<forall>b\<in>set bs. phys_block b"
  shows "span (range_list (foldl add_block_to_ranges (init_ranges r) bs)) = int (length bs) \<and>
         range_used (foldl add_block_to_ranges (init_ranges r) bs) = 1 + breaks bs \<and>
         length (range_list (foldl add_block_to_ranges (init_ranges r) bs)) = 1 + breaks bs \<and>
         (\<forall>b. phys_block b \<longrightarrow>
            range_used (add_block_to_ranges (foldl add_block_to_ranges (init_ranges r) bs) b) =
              (if b = last bs + 1
               then range_used (foldl add_block_to_ranges (init_ranges r) bs)
               else range_used (foldl add_block_to_ranges (init_ranges r) bs) + 1))"
proof -
  let ?R = "foldl add_block_to_ranges (init_ranges r) bs"
  have c: "coalesced ?R bs" using assms(2) by (rule coalesced_pass)
  with assms(1) have sp: "span (range_list ?R) = int (length bs)"
    and us: "range_used ?R = 1 + breaks bs"
    by (simp_all add: coalesced_def)
  have len: "length (range_list ?R) = 1 + breaks bs"
    using us by (simp add: range_list_def)
  have "range_used (add_block_to_ranges ?R b) =
          (if b = last bs + 1 then range_used ?R else range_used ?R + 1)"
    if "phys_block b" for b
  proof -
    from coalesced_step [OF c that]
    have "range_used (add_block_to_ranges ?R b) = 1 + breaks (bs @ [b])"
      by (simp add: coalesced_def)
    with us assms(1) show ?thesis by (simp add: breaks_snoc)
  qed
  with sp us len show ?thesis by blast
qed

theorem coalescer_span_and_count_witness:
  "[5, 6, 9, 3 :: int] \<noteq> [] \<and> phys_block 5 \<and> phys_block 6 \<and> phys_block 9 \<and> phys_block 3 \<and>
   range_list (foldl add_block_to_ranges
       (init_ranges \<lparr>ranges = (\<lambda>_. 0), range_alloc = 0, range_used = 0\<rparr>) [5, 6, 9, 3])
     = [(5, 7), (9, 10), (3, 4)] \<and>
   span [(5, 7), (9, 10), (3, 4)] = 4 \<and> breaks [5, 6, 9, 3] = 2 \<and>
   range_used (foldl add_block_to_ranges
       (init_ranges \<lparr>ranges = (\<lambda>_. 0), range_alloc = 0, range_used = 0\<rparr>) [5, 6, 9, 3]) = 3"
proof -
  let ?r = "\<lparr>ranges = (\<lambda>_. 0), range_alloc = 0, range_used = 0\<rparr>"
  have ne: "[5, 6, 9, 3 :: int] \<noteq> []" by simp
  have ph: "\<forall>b\<in>set [5, 6, 9, 3 :: int]. phys_block b" by (simp add: phys_block_def)
  have br: "breaks [5, 6, 9, 3] = 2" by (simp add: breaks_def upt_rec)
  have rl: "range_list (foldl add_block_to_ranges (init_ranges ?r) [5, 6, 9, 3])
      = [(5, 7), (9, 10), (3, 4)]"
    by (simp add: range_list_def add_block_to_ranges_def init_ranges_def wrap32_def Let_def upt_rec)
  from coalescer_span_and_count [OF ne ph, of ?r] rl br
  have "span [(5, 7), (9, 10), (3, 4)] = 4"
    and "range_used (foldl add_block_to_ranges (init_ranges ?r) [5, 6, 9, 3]) = 3"
    by simp_all
  with ne ph rl br show ?thesis by simp
qed

section \<open>The steps of the pipeline\<close>

lemma flush_head_ok:
  assumes "flush_head e enc b s = Some (0, s1)"
  obtains p where "fibmap e (head_block s) = Some p"
    "rng s1 = add_block_to_ranges (rng s) p"
    "trace s1 = trace s @ [Resolved (head_block s) p, SlotFlushed (head s)]"
    "head s1 = (head s + 1) mod WINDOW_SIZE" "head_block s1 = head_block s + 1"
    "tail s1 = tail s" "pos s1 = pos s" "src_pos s1 = src_pos s" "buffers s1 = buffers s"
    "rscript s1 = rscript s" "mapf s1 = mapf s" "errlog s1 = errlog s" "open_fds s1 = open_fds s"
    "if enc then write_at_offset (buffers s (head s)) b (wdev s) (int b * p) (wscript s)
                   = Some (0, wdev s1, wscript s1)
     else wdev s1 = wdev s \<and> wscript s1 = wscript s"
proof (cases "fibmap e (head_block s)")
  case None
  with assms show ?thesis by (simp add: flush_head_def)
next
  case (Some p)
  show ?thesis
  proof (cases enc)
    case False
    with Some assms show ?thesis
      by (intro that [of p]) (auto simp: flush_head_def Let_def)
  next
    case True
    with Some assms obtain d rest where
      w: "write_at_offset (buffers s (head s)) b (wdev s) (int b * p) (wscript s) = Some (0, d, rest)"
      by (auto simp: flush_head_def Let_def split: option.splits if_splits)
    with Some True assms show ?thesis
      by (intro that [of p]) (auto simp: flush_head_def Let_def)
  qed
qed

lemma flush_head_fail:
  assumes "flush_head e enc b s = Some (r, s1)" "r \<noteq> 0"
  shows "r = - 1 \<and> mapf s1 = mapf s \<and> open_fds s1 = open_fds s \<and> (\<exists>m. errlog s1 = errlog s @ [m]) \<and>
         (\<exists>evs. trace s1 = trace s @ evs \<and> (\<forall>ev\<in>set evs. \<exists>j p. ev = Resolved j p))"
  using assms
  by (auto simp: flush_head_def Let_def split: option.splits if_splits)


lemma read_loop_Some:
  assumes "read_loop dat b buf sf p fp script = Some (r, buf', sf', p', fp', rest)"
  shows "\<exists>k used. sf' = sf + k \<and> p' = p + k \<and> fp' = fp + k \<and> script = used @ rest \<and>
           (r = - 1 \<longleftrightarrow> IOError \<in> set used) \<and> (r = 0 \<or> r = - 1) \<and>
           (sf \<le> b \<longrightarrow> sf' \<le> b) \<and> (fp \<le> length dat \<longrightarrow> fp' \<le> length dat) \<and>
           (r = 0 \<longrightarrow> b \<le> sf' \<or> length dat \<le> p') \<and>
           (\<forall>i. buf' i = (if sf \<le> i \<and> i < sf' then dat ! (fp + (i - sf)) else buf i))"
  using assms
proof (induction script arbitrary: buf sf p fp)
  case Nil
  then show ?case by (auto split: if_splits)
next
  case (Cons x script)
  show ?case
  proof (cases "sf < b \<and> p < length dat")
    case False
    with Cons.prems show ?thesis by (intro exI [of _ 0] exI [of _ "[]"]) auto
  next
    case True
    show ?thesis
    proof (cases x)
      case IOError
      with True Cons.prems show ?thesis by (intro exI [of _ 0] exI [of _ "[IOError]"]) auto
    next
      case (IOBytes c)
      define t where "t = min (min c (b - sf)) (length dat - fp)"
      define buf1 where "buf1 = (\<lambda>i. if sf \<le> i \<and> i < sf + t then dat ! (fp + (i - sf)) else buf i)"
      from True IOBytes Cons.prems
      have run: "read_loop dat b buf1 (sf + t) (p + t) (fp + t) script = Some (r, buf', sf', p', fp', rest)"
        by (simp add: t_def buf1_def Let_def)
      from Cons.IH [OF run] obtain k used where
        k: "sf' = sf + t + k" "p' = p + t + k" "fp' = fp + t + k"
        and u: "script = used @ rest" "(r = - 1 \<longleftrightarrow> IOError \<in> set used)" "r = 0 \<or> r = - 1"
        and bd: "sf + t \<le> b \<longrightarrow> sf' \<le> b" "fp + t \<le> length dat \<longrightarrow> fp' \<le> length dat"
        and ex: "r = 0 \<longrightarrow> b \<le> sf' \<or> length dat \<le> p'"
        and bf: "\<forall>i. buf' i = (if sf + t \<le> i \<and> i < sf' then dat ! (fp + t + (i - (sf + t))) else buf1 i)"
        by blast
      have t1: "sf \<le> b \<longrightarrow> sf + t \<le> b" and t2: "fp \<le> length dat \<longrightarrow> fp + t \<le> length dat"
        by (auto simp: t_def)
      have "\<forall>i. buf' i = (if sf \<le> i \<and> i < sf' then dat ! (fp + (i - sf)) else buf i)"
        using bf k(1) by (auto simp: buf1_def)
      moreover have "x # script = (x # used) @ rest" using u by simp
      moreover have "(r = - 1 \<longleftrightarrow> IOError \<in> set (x # used))" using u IOBytes by simp
      moreover have "sf' = sf + (t + k)" "p' = p + (t + k)" "fp' = fp + (t + k)" using k by simp_all
      ultimately show ?thesis using u(3) bd ex t1 t2 by blast
    qed
  qed
qed

lemma read_next_ok:
  assumes "read_next e enc b s = Some (0, s1)"
  obtains k where
    "trace s1 = trace s" "head s1 = head s" "head_block s1 = head_block s" "tail s1 = tail s"
    "rng s1 = rng s" "mapf s1 = mapf s" "errlog s1 = errlog s" "open_fds s1 = open_fds s"
    "wdev s1 = wdev s" "wscript s1 = wscript s"
    "pos s1 = pos s + k"
    "if enc then src_pos s1 = src_pos s + k \<and> k \<le> b \<and>
                 (src_pos s \<le> length (src_data e) \<longrightarrow> src_pos s + k \<le> length (src_data e)) \<and>
                 (b \<le> k \<or> length (src_data e) \<le> pos s + k) \<and>
                 buffers s1 = (buffers s)(tail s :=
                    (\<lambda>i. if i < k then src_data e ! (src_pos s + i) else buffers s (tail s) i)) \<and>
                 (\<exists>used. rscript s = used @ rscript s1 \<and> IOError \<notin> set used)
     else k = b \<and> src_pos s1 = src_pos s \<and> buffers s1 = buffers s \<and> rscript s1 = rscript s"
proof (cases enc)
  case False
  with assms show ?thesis by (intro that [of b]) (auto simp: read_next_def)
next
  case True
  with assms obtain buf sf p fp rest where
    rl: "read_loop (src_data e) b (buffers s (tail s)) 0 (pos s) (src_pos s) (rscript s)
           = Some (0, buf, sf, p, fp, rest)"
    by (auto simp: read_next_def Let_def split: option.splits if_splits)
  from read_loop_Some [OF rl] obtain k used where
    k: "sf = k" "p = pos s + k" "fp = src_pos s + k" "rscript s = used @ rest" "IOError \<notin> set used"
       "k \<le> b" "src_pos s \<le> length (src_data e) \<longrightarrow> fp \<le> length (src_data e)"
       "b \<le> sf \<or> length (src_data e) \<le> p"
       "\<forall>i. buf i = (if i < k then src_data e ! (src_pos s + i) else buffers s (tail s) i)"
    by auto
  from k(9) have "buf = (\<lambda>i. if i < k then src_data e ! (src_pos s + i) else buffers s (tail s) i)"
    by auto
  with True assms rl k show ?thesis
    by (intro that [of k]) (auto simp: read_next_def Let_def)
qed

lemma read_next_fail:
  assumes "read_next e enc b s = Some (r, s1)" "r \<noteq> 0"
  shows "r = - 1 \<and> mapf s1 = mapf s \<and> open_fds s1 = open_fds s \<and> (\<exists>m. errlog s1 = errlog s @ [m]) \<and>
         trace s1 = trace s"
  using assms
  by (auto simp: read_next_def Let_def split: option.splits if_splits)


lemma admit_step_ok:
  assumes "admit_step e enc b s = Some (0, s2)"
  obtains s1 sr where
    "if (tail s + 1) mod WINDOW_SIZE = head s then flush_head e enc b s = Some (0, s1) else s1 = s"
    "read_next e enc b (s1\<lparr>trace := trace s1 @ [SlotAdmitted (tail s1)]\<rparr>) = Some (0, sr)"
    "s2 = sr\<lparr>tail := (tail sr + 1) mod WINDOW_SIZE\<rparr>"
  using assms
  by (auto simp: admit_step_def split: option.splits if_splits)

lemma admit_step_fail:
  assumes "admit_step e enc b s = Some (r, s2)" "r \<noteq> 0"
  shows "r = - 1 \<and>
         (((tail s + 1) mod WINDOW_SIZE = head s \<and> (\<exists>r1. r1 \<noteq> 0 \<and> flush_head e enc b s = Some (r1, s2))) \<or>
          (\<exists>s1 r2. (if (tail s + 1) mod WINDOW_SIZE = head s
                     then flush_head e enc b s = Some (0, s1) else s1 = s) \<and> r2 \<noteq> 0 \<and>
                    read_next e enc b (s1\<lparr>trace := trace s1 @ [SlotAdmitted (tail s1)]\<rparr>) = Some (r2, s2)))"
  using assms
  by (auto simp: admit_step_def split: option.splits if_splits)

lemma admit_loop_rule_aux:
  assumes step: "\<And>s s1. I s \<Longrightarrow> pos s < length (src_data e) \<Longrightarrow>
                   admit_step e enc b s = Some (0, s1) \<Longrightarrow> I s1"
    and run: "admit_loop e' enc' b' s = Some y"
  shows "e' = e \<and> enc' = enc \<and> b' = b \<and> I s \<longrightarrow>
           (fst y = 0 \<and> I (snd y) \<and> length (src_data e) \<le> pos (snd y)) \<or>
           (fst y = - 1 \<and> (\<exists>s1 r1. I s1 \<and> pos s1 < length (src_data e) \<and> r1 \<noteq> 0 \<and>
                              admit_step e enc b s1 = Some (r1, snd y)))"
  using run
proof (induction e' enc' b' s y rule: admit_loop.raw_induct [rotated 1, consumes 1, case_names unfold])
  case (unfold loop e1 enc1 b1 s y)
  show ?case
  proof (intro impI, elim conjE)
    assume eq: "e1 = e" "enc1 = enc" "b1 = b" and I: "I s"
    show "(fst y = 0 \<and> I (snd y) \<and> length (src_data e) \<le> pos (snd y)) \<or>
           (fst y = - 1 \<and> (\<exists>s1 r1. I s1 \<and> pos s1 < length (src_data e) \<and> r1 \<noteq> 0 \<and>
                              admit_step e enc b s1 = Some (r1, snd y)))"
    proof (cases "pos s < length (src_data e)")
      case False
      with unfold(2) eq I show ?thesis by auto
    next
      case True
      with unfold(2) eq obtain r s1 where st: "admit_step e enc b s = Some (r, s1)"
        by (auto split: option.splits)
      show ?thesis
      proof (cases "r = 0")
        case False
        with unfold(2) eq True st have "y = (- 1, s1)" by simp
        with False st I True show ?thesis by auto
      next
        case r0: True
        with unfold(2) eq True st have "loop e enc b s1 = Some y" by simp
        moreover have "I s1" using step [OF I True] st r0 by simp
        ultimately show ?thesis using unfold(1) by blast
      qed
    qed
  qed
qed

lemma admit_loop_rule:
  assumes "admit_loop e enc b s = Some (r, s')" "I s"
    and "\<And>s s1. I s \<Longrightarrow> pos s < length (src_data e) \<Longrightarrow>
            admit_step e enc b s = Some (0, s1) \<Longrightarrow> I s1"
  shows "(r = 0 \<and> I s' \<and> length (src_data e) \<le> pos s') \<or>
         (r = - 1 \<and> (\<exists>s1 r1. I s1 \<and> pos s1 < length (src_data e) \<and> r1 \<noteq> 0 \<and>
                              admit_step e enc b s1 = Some (r1, s')))"
  using admit_loop_rule_aux [where I = I and e = e and enc = enc and b = b and e' = e and enc' = enc
      and b' = b and s = s and y = "(r, s')", OF assms(3) assms(1)] assms(2)
  by simp

lemma drain_loop_rule_aux:
  assumes step: "\<And>s s1. I s \<Longrightarrow> head s \<noteq> tail s \<Longrightarrow>
                   flush_head e enc b s = Some (0, s1) \<Longrightarrow> I s1"
    and run: "drain_loop e' enc' b' s = Some y"
  shows "e' = e \<and> enc' = enc \<and> b' = b \<and> I s \<longrightarrow>
           (fst y = 0 \<and> I (snd y) \<and> head (snd y) = tail (snd y)) \<or>
           (fst y = - 1 \<and> (\<exists>s1 r1. I s1 \<and> head s1 \<noteq> tail s1 \<and> r1 \<noteq> 0 \<and>
                              flush_head e enc b s1 = Some (r1, snd y)))"
  using run
proof (induction e' enc' b' s y rule: drain_loop.raw_induct [rotated 1, consumes 1, case_names unfold])
  case (unfold loop e1 enc1 b1 s y)
  show ?case
  proof (intro impI, elim conjE)
    assume eq: "e1 = e" "enc1 = enc" "b1 = b" and I: "I s"
    show "(fst y = 0 \<and> I (snd y) \<and> head (snd y) = tail (snd y)) \<or>
           (fst y = - 1 \<and> (\<exists>s1 r1. I s1 \<and> head s1 \<noteq> tail s1 \<and> r1 \<noteq> 0 \<and>
                              flush_head e enc b s1 = Some (r1, snd y)))"
    proof (cases "head s \<noteq> tail s")
      case False
      with unfold(2) eq I show ?thesis by auto
    next
      case True
      with unfold(2) eq obtain r s1 where st: "flush_head e enc b s = Some (r, s1)"
        by (auto split: option.splits)
      show ?thesis
      proof (cases "r = 0")
        case False
        with unfold(2) eq True st have "y = (- 1, s1)" by simp
        with False st I True show ?thesis by auto
      next
        case r0: True
        with unfold(2) eq True st have "loop e enc b s1 = Some y" by simp
        moreover have "I s1" using step [OF I True] st r0 by simp
        ultimately show ?thesis using unfold(1) by blast
      qed
    qed
  qed
qed

lemma drain_loop_rule:
  assumes "drain_loop e enc b s = Some (r, s')" "I s"
    and "\<And>s s1. I s \<Longrightarrow> head s \<noteq> tail s \<Longrightarrow> flush_head e enc b s = Some (0, s1) \<Longrightarrow> I s1"
  shows "(r = 0 \<and> I s' \<and> head s' = tail s') \<or>
         (r = - 1 \<and> (\<exists>s1 r1. I s1 \<and> head s1 \<noteq> tail s1 \<and> r1 \<noteq> 0 \<and>
                              flush_head e enc b s1 = Some (r1, s')))"
  using drain_loop_rule_aux [where I = I and e = e and enc = enc and b = b and e' = e and enc' = enc
      and b' = b and s = s and y = "(r, s')", OF assms(3) assms(1)] assms(2)
  by simp

section \<open>The cursors of the window\<close>

lemma admitted_slots_append [simp]:
  "admitted_slots (xs @ ys) = admitted_slots xs @ admitted_slots ys"
  by (induction xs rule: admitted_slots.induct) simp_all

lemma flushed_slots_append [simp]:
  "flushed_slots (xs @ ys) = flushed_slots xs @ flushed_slots ys"
  by (induction xs rule: flushed_slots.induct) simp_all

lemma resolutions_append [simp]:
  "resolutions (xs @ ys) = resolutions xs @ resolutions ys"
  by (induction xs rule: resolutions.induct) simp_all

lemma bounded_Nil: "bounded []"
  by (simp add: bounded_def in_flight_def WINDOW_SIZE_def)

lemma bounded_snoc:
  "bounded (tr @ [ev]) \<longleftrightarrow>
     bounded tr \<and> length (flushed_slots (tr @ [ev])) \<le> length (admitted_slots (tr @ [ev])) \<and>
     in_flight (tr @ [ev]) < WINDOW_SIZE"
proof -
  have "(\<forall>k\<le>Suc (length tr). P (take k (tr @ [ev]))) \<longleftrightarrow>
        (\<forall>k\<le>length tr. P (take k tr)) \<and> P (tr @ [ev])" for P :: "event list \<Rightarrow> bool"
    by (auto simp: le_Suc_eq)
  from this [of "\<lambda>t. length (flushed_slots t) \<le> length (admitted_slots t) \<and> in_flight t < WINDOW_SIZE"]
  show ?thesis by (simp add: bounded_def)
qed

lemma window_full_iff:
  assumes "h \<le> a" "a < h + WINDOW_SIZE"
  shows "(a mod WINDOW_SIZE + 1) mod WINDOW_SIZE = h mod WINDOW_SIZE \<longleftrightarrow> a + 1 = h + WINDOW_SIZE"
proof
  assume "(a mod WINDOW_SIZE + 1) mod WINDOW_SIZE = h mod WINDOW_SIZE"
  then have "(a + 1) mod WINDOW_SIZE = h mod WINDOW_SIZE" by (simp add: mod_Suc_eq)
  moreover have "h \<le> a + 1" using assms by simp
  ultimately have "WINDOW_SIZE dvd a + 1 - h" by (simp add: mod_eq_dvd_iff_nat)
  moreover have "0 < a + 1 - h" using assms by simp
  ultimately have "WINDOW_SIZE \<le> a + 1 - h" by (rule dvd_imp_le)
  with assms show "a + 1 = h + WINDOW_SIZE" by simp
next
  assume "a + 1 = h + WINDOW_SIZE"
  then have "(a + 1) mod WINDOW_SIZE = h mod WINDOW_SIZE" by simp
  then show "(a mod WINDOW_SIZE + 1) mod WINDOW_SIZE = h mod WINDOW_SIZE" by (simp add: mod_Suc_eq)
qed

lemma window_empty_iff:
  assumes "h \<le> a" "a < h + WINDOW_SIZE"
  shows "h mod WINDOW_SIZE = a mod WINDOW_SIZE \<longleftrightarrow> h = a"
proof
  assume "h mod WINDOW_SIZE = a mod WINDOW_SIZE"
  then have "a mod WINDOW_SIZE = h mod WINDOW_SIZE" by simp
  with assms(1) have d: "WINDOW_SIZE dvd a - h" by (simp add: mod_eq_dvd_iff_nat)
  have "a - h < WINDOW_SIZE" using assms by simp
  with d have "a - h = 0" using nat_dvd_not_less by (cases "a - h = 0") auto
  with assms(1) show "h = a" by simp
qed simp

lemma window_next: "(x mod WINDOW_SIZE + 1) mod WINDOW_SIZE = (x + 1) mod WINDOW_SIZE"
  by (simp add: mod_Suc_eq)

lemma idx_invD:
  assumes "idx_inv e enc b s"
  shows "length (flushed_slots (trace s)) = head_block s"
    and "head_block s \<le> length (admitted_slots (trace s))"
    and "length (admitted_slots (trace s)) < head_block s + WINDOW_SIZE"
    and "head s = head_block s mod WINDOW_SIZE"
    and "tail s = length (admitted_slots (trace s)) mod WINDOW_SIZE"
    and "enc \<Longrightarrow> pos s = min (length (admitted_slots (trace s)) * b) (length (src_data e))"
    and "enc \<Longrightarrow> src_pos s = pos s"
    and "\<not> enc \<Longrightarrow> pos s = length (admitted_slots (trace s)) * b"
    and "0 < length (admitted_slots (trace s)) \<Longrightarrow>
           (length (admitted_slots (trace s)) - 1) * b < length (src_data e)"
    and "bounded (trace s)"
    and "\<forall>i<length (admitted_slots (trace s)). admitted_slots (trace s) ! i = i mod WINDOW_SIZE"
    and "flushed_slots (trace s) = map (\<lambda>j. j mod WINDOW_SIZE) [0..<head_block s]"
  using assms unfolding idx_inv_def by (simp_all split: if_splits)

lemma idx_invI:
  assumes "length (flushed_slots (trace s)) = head_block s"
    and "head_block s \<le> length (admitted_slots (trace s))"
    and "length (admitted_slots (trace s)) < head_block s + WINDOW_SIZE"
    and "head s = head_block s mod WINDOW_SIZE"
    and "tail s = length (admitted_slots (trace s)) mod WINDOW_SIZE"
    and "enc \<Longrightarrow> pos s = min (length (admitted_slots (trace s)) * b) (length (src_data e))"
    and "enc \<Longrightarrow> src_pos s = pos s"
    and "\<not> enc \<Longrightarrow> pos s = length (admitted_slots (trace s)) * b"
    and "0 < length (admitted_slots (trace s)) \<Longrightarrow>
           (length (admitted_slots (trace s)) - 1) * b < length (src_data e)"
    and "bounded (trace s)"
    and "\<forall>i<length (admitted_slots (trace s)). admitted_slots (trace s) ! i = i mod WINDOW_SIZE"
    and "flushed_slots (trace s) = map (\<lambda>j. j mod WINDOW_SIZE) [0..<head_block s]"
  shows "idx_inv e enc b s"
  unfolding idx_inv_def using assms by (cases enc) simp_all

lemma idx_inv_flush:
  assumes I: "idx_inv e enc b s"
    and lt: "head_block s < length (admitted_slots (trace s))"
    and fl: "flush_head e enc b s = Some (0, s1)"
  shows "idx_inv e enc b s1" "admitted_slots (trace s1) = admitted_slots (trace s)"
    "head_block s1 = head_block s + 1" "pos s1 = pos s"
proof -
  note D = idx_invD [OF I]
  from fl obtain p where f:
    "trace s1 = trace s @ [Resolved (head_block s) p, SlotFlushed (head s)]"
    "head s1 = (head s + 1) mod WINDOW_SIZE" "head_block s1 = head_block s + 1"
    "tail s1 = tail s" "pos s1 = pos s" "src_pos s1 = src_pos s"
    by (rule flush_head_ok)
  show a: "admitted_slots (trace s1) = admitted_slots (trace s)" by (simp add: f(1))
  show "head_block s1 = head_block s + 1" by (rule f)
  show "pos s1 = pos s" by (rule f)
  have fs: "flushed_slots (trace s1) = flushed_slots (trace s) @ [head s]" by (simp add: f(1))
  have tr: "trace s1 = (trace s @ [Resolved (head_block s) p]) @ [SlotFlushed (head s)]"
    by (simp add: f(1))
  have b1: "bounded (trace s @ [Resolved (head_block s) p])"
    using D(1,2,3,10) by (simp add: bounded_snoc in_flight_def)
  have b2: "bounded (trace s1)"
    unfolding tr using b1 D(1,3) lt by (subst bounded_snoc) (simp add: in_flight_def)
  show "idx_inv e enc b s1"
  proof (rule idx_invI)
    show "length (flushed_slots (trace s1)) = head_block s1" using D(1) by (simp add: fs f(3))
    show "head_block s1 \<le> length (admitted_slots (trace s1))" using lt by (simp add: a f(3))
    show "length (admitted_slots (trace s1)) < head_block s1 + WINDOW_SIZE"
      using D(3) by (simp add: a f(3))
    show "head s1 = head_block s1 mod WINDOW_SIZE"
      using window_next [of "head_block s"] by (simp add: f(2,3) D(4))
    show "tail s1 = length (admitted_slots (trace s1)) mod WINDOW_SIZE"
      by (simp add: a f(4) D(5))
    show "enc \<Longrightarrow> pos s1 = min (length (admitted_slots (trace s1)) * b) (length (src_data e))"
      using D(6) by (simp add: a f(5))
    show "enc \<Longrightarrow> src_pos s1 = pos s1" using D(7) by (simp add: f(5,6))
    show "\<not> enc \<Longrightarrow> pos s1 = length (admitted_slots (trace s1)) * b"
      using D(8) by (simp add: a f(5))
    show "0 < length (admitted_slots (trace s1)) \<Longrightarrow>
           (length (admitted_slots (trace s1)) - 1) * b < length (src_data e)"
      using D(9) by (simp add: a)
    show "bounded (trace s1)" by (rule b2)
    show "\<forall>i<length (admitted_slots (trace s1)). admitted_slots (trace s1) ! i = i mod WINDOW_SIZE"
      unfolding a by (rule D(11))
    show "flushed_slots (trace s1) = map (\<lambda>j. j mod WINDOW_SIZE) [0..<head_block s1]"
      using D(12) by (simp add: fs f(3) D(4))
  qed
qed

lemma idx_inv_admit:
  assumes I: "idx_inv e enc b s1"
    and room: "length (admitted_slots (trace s1)) + 1 < head_block s1 + WINDOW_SIZE"
    and more: "pos s1 < length (src_data e)"
    and rd: "read_next e enc b (s1\<lparr>trace := trace s1 @ [SlotAdmitted (tail s1)]\<rparr>) = Some (0, sr)"
  shows "idx_inv e enc b (sr\<lparr>tail := (tail sr + 1) mod WINDOW_SIZE\<rparr>)"
proof -
  note D = idx_invD [OF I]
  let ?s = "s1\<lparr>trace := trace s1 @ [SlotAdmitted (tail s1)]\<rparr>"
  let ?a = "length (admitted_slots (trace s1))"
  let ?n = "length (src_data e)"
  let ?s' = "sr\<lparr>tail := (tail sr + 1) mod WINDOW_SIZE\<rparr>"
  from rd obtain k where f:
    "trace sr = trace ?s" "head sr = head ?s" "head_block sr = head_block ?s" "tail sr = tail ?s"
    "pos sr = pos ?s + k"
    and g: "if enc then src_pos sr = src_pos ?s + k \<and> k \<le> b \<and>
                 (src_pos ?s \<le> ?n \<longrightarrow> src_pos ?s + k \<le> ?n) \<and>
                 (b \<le> k \<or> ?n \<le> pos ?s + k)
     else k = b \<and> src_pos sr = src_pos ?s"
    by (rule read_next_ok) (simp split: if_splits)
  have tr: "trace ?s' = trace s1 @ [SlotAdmitted (tail s1)]" by (simp add: f(1))
  have ad: "admitted_slots (trace ?s') = admitted_slots (trace s1) @ [?a mod WINDOW_SIZE]"
    unfolding tr by (simp add: D(5))
  have al: "length (admitted_slots (trace ?s')) = Suc ?a" unfolding ad by simp
  have fl: "flushed_slots (trace ?s') = flushed_slots (trace s1)" unfolding tr by simp
  have hb: "head_block ?s' = head_block s1" "head ?s' = head s1" by (simp_all add: f)
  have bd: "bounded (trace ?s')"
    unfolding tr using D(1,2,10) room by (simp add: bounded_snoc in_flight_def)
  have lst: "?a * b < ?n"
  proof (cases enc)
    case True
    with D(6) more show ?thesis by simp
  next
    case False
    with D(8) more show ?thesis by simp
  qed
  show ?thesis
  proof (rule idx_invI)
    show "length (flushed_slots (trace ?s')) = head_block ?s'" unfolding fl hb by (rule D(1))
    show "head_block ?s' \<le> length (admitted_slots (trace ?s'))"
      unfolding al hb using D(2) by simp
    show "length (admitted_slots (trace ?s')) < head_block ?s' + WINDOW_SIZE"
      unfolding al hb using room by simp
    show "head ?s' = head_block ?s' mod WINDOW_SIZE" unfolding hb by (rule D(4))
    show "tail ?s' = length (admitted_slots (trace ?s')) mod WINDOW_SIZE"
      unfolding al using window_next [of ?a] by (simp add: f(4) D(5))
    show "pos ?s' = min (length (admitted_slots (trace ?s')) * b) ?n" if enc
    proof -
      from that D(6) lst have p: "pos s1 = ?a * b" by simp
      from that D(7) p have sp: "src_pos s1 = ?a * b" by simp
      from that g sp p have k: "k \<le> b" "?a * b + k \<le> ?n" "b \<le> k \<or> ?n \<le> ?a * b + k"
        using lst by simp_all
      have "pos ?s' = ?a * b + k" by (simp add: f(5) p)
      also have "\<dots> = min (Suc ?a * b) ?n" using k by auto
      finally show ?thesis unfolding al .
    qed
    show "src_pos ?s' = pos ?s'" if enc
      using that g D(7) by (simp add: f(5))
    show "pos ?s' = length (admitted_slots (trace ?s')) * b" if "\<not> enc"
      unfolding al using that g D(8) by (simp add: f(5))
    show "(length (admitted_slots (trace ?s')) - 1) * b < ?n"
      unfolding al using lst by simp
    show "bounded (trace ?s')" by (rule bd)
    show "\<forall>i<length (admitted_slots (trace ?s')). admitted_slots (trace ?s') ! i = i mod WINDOW_SIZE"
      unfolding al ad using D(11) by (simp add: nth_append less_Suc_eq)
    show "flushed_slots (trace ?s') = map (\<lambda>j. j mod WINDOW_SIZE) [0..<head_block ?s']"
      unfolding fl hb by (rule D(12))
  qed
qed

lemma admit_step_mid:
  assumes I: "idx_inv e enc b s"
    and fl: "if (tail s + 1) mod WINDOW_SIZE = head s
             then flush_head e enc b s = Some (0, s1) else s1 = s"
  shows "idx_inv e enc b s1"
    and "length (admitted_slots (trace s1)) + 1 < head_block s1 + WINDOW_SIZE"
    and "pos s1 = pos s"
    and "admitted_slots (trace s1) = admitted_slots (trace s)"
proof -
  note D = idx_invD [OF I]
  let ?a = "length (admitted_slots (trace s))"
  have "idx_inv e enc b s1 \<and> length (admitted_slots (trace s1)) + 1 < head_block s1 + WINDOW_SIZE
             \<and> pos s1 = pos s \<and> admitted_slots (trace s1) = admitted_slots (trace s)"
  proof (cases "(tail s + 1) mod WINDOW_SIZE = head s")
    case True
    with fl have f: "flush_head e enc b s = Some (0, s1)" by simp
    from True D(4,5) window_full_iff [OF D(2,3)] have full: "?a + 1 = head_block s + WINDOW_SIZE"
      by simp
    then have lt: "head_block s < ?a" by (simp add: WINDOW_SIZE_def)
    from idx_inv_flush [OF I lt f] full show ?thesis
      by (simp add: WINDOW_SIZE_def)
  next
    case False
    with fl have "s1 = s" by simp
    moreover from False D(4,5) window_full_iff [OF D(2,3)]
    have "?a + 1 \<noteq> head_block s + WINDOW_SIZE" by simp
    ultimately show ?thesis using I D(2,3) by simp
  qed
  then show "idx_inv e enc b s1"
    and "length (admitted_slots (trace s1)) + 1 < head_block s1 + WINDOW_SIZE"
    and "pos s1 = pos s"
    and "admitted_slots (trace s1) = admitted_slots (trace s)"
    by blast+
qed

lemma idx_inv_step:
  assumes I: "idx_inv e enc b s" and more: "pos s < length (src_data e)"
    and st: "admit_step e enc b s = Some (0, s2)"
  shows "idx_inv e enc b s2"
proof -
  from st obtain s1 sr where
    fl: "if (tail s + 1) mod WINDOW_SIZE = head s then flush_head e enc b s = Some (0, s1) else s1 = s"
    and rd: "read_next e enc b (s1\<lparr>trace := trace s1 @ [SlotAdmitted (tail s1)]\<rparr>) = Some (0, sr)"
    and s2: "s2 = sr\<lparr>tail := (tail sr + 1) mod WINDOW_SIZE\<rparr>"
    by (rule admit_step_ok)
  note mid = admit_step_mid [OF I fl]
  from more mid(3) have "pos s1 < length (src_data e)" by simp
  from idx_inv_admit [OF mid(1,2) this rd] show ?thesis unfolding s2 .
qed

lemma idx_inv_drain:
  assumes I: "idx_inv e enc b s" and ne: "head s \<noteq> tail s"
    and fl: "flush_head e enc b s = Some (0, s1)"
  shows "idx_inv e enc b s1"
proof -
  note D = idx_invD [OF I]
  from ne D(4,5) window_empty_iff [OF D(2,3)] D(2)
  have "head_block s < length (admitted_slots (trace s))" by auto
  from idx_inv_flush(1) [OF I this fl] show ?thesis .
qed

section \<open>The two loops of the pass\<close>

lemma pass_unfold:
  assumes "stat_blksize e = Some b" "0 < b" "fopen_ok e" "open_src_ok e" "enc \<Longrightarrow> open_dev_ok e"
  shows "produce_block_map e dev enc s0 =
     (case admit_loop e enc b (start_state e dev enc b s0) of
        None \<Rightarrow> None
      | Some (r, s5) \<Rightarrow>
          if r \<noteq> 0 then Some (- 1, s5)
          else (case drain_loop e enc b s5 of
                  None \<Rightarrow> None
                | Some (r', s6) \<Rightarrow> if r' \<noteq> 0 then Some (- 1, s6) else Some (0, finish enc s6)))"
  using assms
  by (cases enc)
     (simp_all add: produce_block_map_def start_state_def finish_def Let_def
        cong: option.case_cong prod.case_cong if_cong)

lemma pass_success_unfold:
  assumes run: "produce_block_map e dev enc s0 = Some (0, s')"
  obtains b s5 s6 where "stat_blksize e = Some b" "0 < b" "fopen_ok e" "open_src_ok e"
    "enc \<longrightarrow> open_dev_ok e"
    "admit_loop e enc b (start_state e dev enc b s0) = Some (0, s5)"
    "drain_loop e enc b s5 = Some (0, s6)" "s' = finish enc s6"
proof -
  from run obtain b where stat: "stat_blksize e = Some b"
    by (cases "stat_blksize e") (auto simp: produce_block_map_def Let_def)
  from run stat have b0: "0 < b" by (cases "b = 0") (auto simp: produce_block_map_def)
  from run stat b0 have fo: "fopen_ok e"
    by (cases "fopen_ok e") (auto simp: produce_block_map_def Let_def)
  from run stat b0 fo have os: "open_src_ok e"
    by (cases "open_src_ok e") (auto simp: produce_block_map_def Let_def)
  from run stat b0 fo os have od: "open_dev_ok e" if enc
    using that by (cases "open_dev_ok e") (auto simp: produce_block_map_def Let_def)
  from run obtain s5 s6 where
    "admit_loop e enc b (start_state e dev enc b s0) = Some (0, s5)"
    "drain_loop e enc b s5 = Some (0, s6)" "s' = finish enc s6"
    by (auto simp: pass_unfold [OF stat b0 fo os od] split: option.splits if_splits prod.splits)
  with stat b0 fo os od show ?thesis by (intro that) simp_all
qed

lemma start_state_fields:
  "mapf (start_state e dev enc b s0) = header dev (length (src_data e)) b"
  "errlog (start_state e dev enc b s0) = errlog s0"
  "open_fds (start_state e dev enc b s0) =
     (if enc then {MapStream, SrcFd, DevFd} else {MapStream, SrcFd}) \<union> open_fds s0"
  "trace (start_state e dev enc b s0) = []"
  "rng (start_state e dev enc b s0) = init_ranges (rng s0)"
  "head_block (start_state e dev enc b s0) = 0"
  "head (start_state e dev enc b s0) = 0"
  "tail (start_state e dev enc b s0) = 0"
  "pos (start_state e dev enc b s0) = 0"
  "src_pos (start_state e dev enc b s0) = 0"
  "buffers (start_state e dev enc b s0) = buffers s0"
  "rscript (start_state e dev enc b s0) = rscript s0"
  "wscript (start_state e dev enc b s0) = wscript s0"
  "dev_bytes (wdev (start_state e dev enc b s0)) = dev_bytes (wdev s0)"
  by (auto simp: start_state_def Let_def)

lemma finish_fields:
  "mapf (finish enc s) = mapf s @ show_int (int (range_used (rng s))) @ [nl] @ range_lines (rng s)"
  "open_fds (finish enc s) = open_fds s - {MapStream, SrcFd} - (if enc then {DevFd} else {})"
  "errlog (finish enc s) = errlog s" "trace (finish enc s) = trace s" "rng (finish enc s) = rng s"
  "head_block (finish enc s) = head_block s" "wdev (finish enc s) = wdev s"
  "rscript (finish enc s) = rscript s" "wscript (finish enc s) = wscript s"
  by (simp_all add: finish_def)


lemma res_inv_flush:
  assumes R: "res_inv e R0 s" and fl: "flush_head e enc b s = Some (0, s1)"
  shows "res_inv e R0 s1"
proof -
  from fl obtain p where f: "fibmap e (head_block s) = Some p"
    "rng s1 = add_block_to_ranges (rng s) p"
    "trace s1 = trace s @ [Resolved (head_block s) p, SlotFlushed (head s)]"
    "head s1 = (head s + 1) mod WINDOW_SIZE" "head_block s1 = head_block s + 1"
    by (rule flush_head_ok)
  from R have r: "\<forall>j<head_block s. fibmap e j \<noteq> None"
    "resolutions (trace s) = map (\<lambda>j. (j, the (fibmap e j))) [0..<head_block s]"
    "rng s = foldl add_block_to_ranges R0 (map (\<lambda>j. the (fibmap e j)) [0..<head_block s])"
    by (simp_all add: res_inv_def)
  have "\<forall>j<head_block s1. fibmap e j \<noteq> None"
    using r(1) f(1) by (auto simp: f(5) less_Suc_eq)
  moreover have "resolutions (trace s1) = map (\<lambda>j. (j, the (fibmap e j))) [0..<head_block s1]"
    by (simp add: f r(2))
  moreover have "rng s1 =
      foldl add_block_to_ranges R0 (map (\<lambda>j. the (fibmap e j)) [0..<head_block s1])"
    by (simp add: f r(3))
  ultimately show ?thesis by (simp add: res_inv_def)
qed

lemma res_inv_step:
  assumes R: "res_inv e R0 s" and st: "admit_step e enc b s = Some (0, s2)"
  shows "res_inv e R0 s2"
proof -
  from st obtain s1 sr where
    fl: "if (tail s + 1) mod WINDOW_SIZE = head s then flush_head e enc b s = Some (0, s1) else s1 = s"
    and rd: "read_next e enc b (s1\<lparr>trace := trace s1 @ [SlotAdmitted (tail s1)]\<rparr>) = Some (0, sr)"
    and s2: "s2 = sr\<lparr>tail := (tail sr + 1) mod WINDOW_SIZE\<rparr>"
    by (rule admit_step_ok)
  have R1: "res_inv e R0 s1"
    using fl R res_inv_flush [OF R] by (cases "(tail s + 1) mod WINDOW_SIZE = head s") simp_all
  let ?s = "s1\<lparr>trace := trace s1 @ [SlotAdmitted (tail s1)]\<rparr>"
  from rd obtain k where f: "trace sr = trace ?s" "head_block sr = head_block ?s" "rng sr = rng ?s"
    by (rule read_next_ok)
  show ?thesis using R1 unfolding s2 res_inv_def by (simp add: f)
qed

lemma frame_inv_flush:
  assumes "frame_inv M E F s" and fl: "flush_head e enc b s = Some (0, s1)"
  shows "frame_inv M E F s1"
proof -
  from fl obtain p where "mapf s1 = mapf s" "errlog s1 = errlog s" "open_fds s1 = open_fds s"
    by (rule flush_head_ok)
  with assms(1) show ?thesis by (simp add: frame_inv_def)
qed

lemma frame_inv_step:
  assumes F: "frame_inv M E F s" and st: "admit_step e enc b s = Some (0, s2)"
  shows "frame_inv M E F s2"
proof -
  from st obtain s1 sr where
    fl: "if (tail s + 1) mod WINDOW_SIZE = head s then flush_head e enc b s = Some (0, s1) else s1 = s"
    and rd: "read_next e enc b (s1\<lparr>trace := trace s1 @ [SlotAdmitted (tail s1)]\<rparr>) = Some (0, sr)"
    and s2: "s2 = sr\<lparr>tail := (tail sr + 1) mod WINDOW_SIZE\<rparr>"
    by (rule admit_step_ok)
  have F1: "frame_inv M E F s1"
    using fl F frame_inv_flush [OF F] by (cases "(tail s + 1) mod WINDOW_SIZE = head s") simp_all
  let ?s = "s1\<lparr>trace := trace s1 @ [SlotAdmitted (tail s1)]\<rparr>"
  from rd obtain k where f: "mapf sr = mapf ?s" "errlog sr = errlog ?s" "open_fds sr = open_fds ?s"
    by (rule read_next_ok)
  show ?thesis using F1 unfolding s2 frame_inv_def by (simp add: f)
qed

lemma blocks_done:
  assumes "0 < b" "n \<le> a * b" "0 < a \<Longrightarrow> (a - 1) * b < n"
  shows "a = logical_blocks n b"
proof (cases a)
  case 0
  with assms show ?thesis by (simp add: logical_blocks_def)
next
  case (Suc m)
  with assms have "m * b < n" "n \<le> b + m * b" by simp_all
  then have "b * a \<le> n + b - 1" "n + b - 1 < b * Suc a"
    using assms(1) Suc by (simp_all add: algebra_simps)
  then have "(n + b - 1) div b = a" by (rule div_nat_eqI)
  then show ?thesis by (simp add: logical_blocks_def)
qed

lemma idx_inv_start: "idx_inv e enc b (start_state e dev enc b s0)"
  by (rule idx_invI) (simp_all add: start_state_fields bounded_Nil WINDOW_SIZE_def)

lemma res_inv_start: "res_inv e (init_ranges (rng s0)) (start_state e dev enc b s0)"
  by (simp add: res_inv_def start_state_fields)

lemma frame_inv_start:
  "frame_inv (header dev (length (src_data e)) b) (errlog s0)
     ((if enc then {MapStream, SrcFd, DevFd} else {MapStream, SrcFd}) \<union> open_fds s0)
     (start_state e dev enc b s0)"
  by (simp add: frame_inv_def start_state_fields)

text \<open>What holds when both loops have returned 0.\<close>

lemma loops_done:
  assumes b0: "0 < b"
    and al: "admit_loop e enc b (start_state e dev enc b s0) = Some (0, s5)"
    and dl: "drain_loop e enc b s5 = Some (0, s6)"
  shows "head_block s6 = logical_blocks (length (src_data e)) b"
    and "length (admitted_slots (trace s6)) = head_block s6"
    and "idx_inv e enc b s6" and "res_inv e (init_ranges (rng s0)) s6"
    and "frame_inv (header dev (length (src_data e)) b) (errlog s0)
           ((if enc then {MapStream, SrcFd, DevFd} else {MapStream, SrcFd}) \<union> open_fds s0) s6"
proof -
  let ?n = "length (src_data e)"
  let ?F = "frame_inv (header dev ?n b) (errlog s0)
           ((if enc then {MapStream, SrcFd, DevFd} else {MapStream, SrcFd}) \<union> open_fds s0)"
  let ?I = "\<lambda>s. idx_inv e enc b s \<and> res_inv e (init_ranges (rng s0)) s \<and> ?F s"
  have I0: "?I (start_state e dev enc b s0)"
    using idx_inv_start res_inv_start frame_inv_start by blast
  have "(0 = (0::int) \<and> ?I s5 \<and> ?n \<le> pos s5) \<or>
        (0 = (- 1 :: int) \<and> (\<exists>s1 r1. ?I s1 \<and> pos s1 < ?n \<and> r1 \<noteq> 0 \<and>
                              admit_step e enc b s1 = Some (r1, s5)))"
    by (rule admit_loop_rule [where I = ?I, OF al I0])
       (blast intro: idx_inv_step res_inv_step frame_inv_step)
  then have I5: "?I s5" and p5: "?n \<le> pos s5" by simp_all
  let ?J = "\<lambda>s. ?I s \<and> ?n \<le> pos s"
  have J5: "?J s5" using I5 p5 by blast
  have "(0 = (0::int) \<and> ?J s6 \<and> head s6 = tail s6) \<or>
        (0 = (- 1 :: int) \<and> (\<exists>s1 r1. ?J s1 \<and> head s1 \<noteq> tail s1 \<and> r1 \<noteq> 0 \<and>
                              flush_head e enc b s1 = Some (r1, s6)))"
  proof (rule drain_loop_rule [where I = ?J, OF dl J5])
    fix s s1
    assume J: "?J s" and ne: "head s \<noteq> tail s" and fl: "flush_head e enc b s = Some (0, s1)"
    from fl obtain p where "pos s1 = pos s" by (rule flush_head_ok)
    with J have p1: "?n \<le> pos s1" by simp
    from J have a: "idx_inv e enc b s" and r: "res_inv e (init_ranges (rng s0)) s" and f: "?F s"
      by blast+
    from idx_inv_drain [OF a ne fl] res_inv_flush [OF r fl] frame_inv_flush [OF f fl] p1
    show "?J s1" by blast
  qed
  then have J6: "?J s6" and ht: "head s6 = tail s6" by simp_all
  then show I6: "idx_inv e enc b s6" and "res_inv e (init_ranges (rng s0)) s6" and "?F s6"
    by simp_all
  note D = idx_invD [OF I6]
  from ht D(4,5) window_empty_iff [OF D(2,3)]
  show eq: "length (admitted_slots (trace s6)) = head_block s6" by simp
  have "?n \<le> head_block s6 * b"
  proof (cases enc)
    case True
    with D(6) J6 show ?thesis by (simp add: eq)
  next
    case False
    with D(8) J6 show ?thesis by (simp add: eq)
  qed
  moreover have "(head_block s6 - 1) * b < ?n" if "0 < head_block s6"
    using D(9) that by (simp add: eq)
  ultimately show "head_block s6 = logical_blocks ?n b"
    using b0 by (intro blocks_done)
qed


lemma bounded_whole:
  assumes "bounded tr"
  shows "length (flushed_slots tr) \<le> length (admitted_slots tr)" "in_flight tr < WINDOW_SIZE"
  using assms [unfolded bounded_def, rule_format, of "length tr"] by simp_all

lemma bounded_resolved: "bounded tr \<Longrightarrow> bounded (tr @ [Resolved j p])"
  using bounded_whole [of tr] by (simp add: bounded_snoc in_flight_def)

lemma flush_head_fail_trace:
  assumes "flush_head e enc b s = Some (r, s1)" "r \<noteq> 0"
  shows "trace s1 = trace s \<or> (\<exists>j p. trace s1 = trace s @ [Resolved j p])"
  using assms
  by (auto simp: flush_head_def Let_def split: option.splits if_splits)

lemma flush_fail_frame:
  assumes F: "frame_inv M E F s" and bd: "bounded (trace s)"
    and fl: "flush_head e enc b s = Some (r, s1)" and r: "r \<noteq> 0"
  shows "mapf s1 = M" "open_fds s1 = F" "\<exists>m. errlog s1 = E @ [m]" "bounded (trace s1)"
proof -
  from flush_head_fail [OF fl r] F
  show "mapf s1 = M" "open_fds s1 = F" "\<exists>m. errlog s1 = E @ [m]"
    by (simp_all add: frame_inv_def)
  from flush_head_fail_trace [OF fl r] bd show "bounded (trace s1)"
    by (auto intro: bounded_resolved)
qed

lemma step_fail_frame:
  assumes F: "frame_inv M E F s" and I: "idx_inv e enc b s"
    and st: "admit_step e enc b s = Some (r, s2)" and r: "r \<noteq> 0"
  shows "mapf s2 = M" "open_fds s2 = F" "\<exists>m. errlog s2 = E @ [m]" "bounded (trace s2)"
proof -
  note D = idx_invD [OF I]
  from admit_step_fail [OF st r] consider
    (flush) r1 where "r1 \<noteq> 0" "flush_head e enc b s = Some (r1, s2)"
  | (read) s1 r2 where
      "if (tail s + 1) mod WINDOW_SIZE = head s
       then flush_head e enc b s = Some (0, s1) else s1 = s" "r2 \<noteq> 0"
      "read_next e enc b (s1\<lparr>trace := trace s1 @ [SlotAdmitted (tail s1)]\<rparr>) = Some (r2, s2)"
    by blast
  then have "mapf s2 = M \<and> open_fds s2 = F \<and> (\<exists>m. errlog s2 = E @ [m]) \<and> bounded (trace s2)"
  proof cases
    case flush
    from flush_fail_frame [OF F D(10) flush(2,1)] show ?thesis by blast
  next
    case read
    note mid = admit_step_mid [OF I read(1)]
    note D1 = idx_invD [OF mid(1)]
    have F1: "frame_inv M E F s1"
      using read(1) F frame_inv_flush [OF F]
      by (cases "(tail s + 1) mod WINDOW_SIZE = head s") simp_all
    have "bounded (trace s1 @ [SlotAdmitted (tail s1)])"
      using D1(1,2,10) mid(2) by (simp add: bounded_snoc in_flight_def)
    with read_next_fail [OF read(3,2)] F1 show ?thesis
      by (simp add: frame_inv_def)
  qed
  then show "mapf s2 = M" "open_fds s2 = F" "\<exists>m. errlog s2 = E @ [m]" "bounded (trace s2)"
    by blast+
qed

text \<open>What holds when one of the loops has returned \<open>-1\<close>.\<close>

lemma loops_failed:
  assumes b0: "0 < b"
    and run: "(\<exists>r. admit_loop e enc b (start_state e dev enc b s0) = Some (r, s') \<and> r \<noteq> 0) \<or>
              (\<exists>s5 r'. admit_loop e enc b (start_state e dev enc b s0) = Some (0, s5) \<and>
                 drain_loop e enc b s5 = Some (r', s') \<and> r' \<noteq> 0)"
  shows "mapf s' = header dev (length (src_data e)) b"
    and "open_fds s' = (if enc then {MapStream, SrcFd, DevFd} else {MapStream, SrcFd}) \<union> open_fds s0"
    and "\<exists>m. errlog s' = errlog s0 @ [m]" and "bounded (trace s')"
proof -
  let ?n = "length (src_data e)"
  let ?O = "(if enc then {MapStream, SrcFd, DevFd} else {MapStream, SrcFd}) \<union> open_fds s0"
  let ?F = "frame_inv (header dev ?n b) (errlog s0) ?O"
  let ?I = "\<lambda>s. idx_inv e enc b s \<and> ?F s"
  have I0: "?I (start_state e dev enc b s0)"
    using idx_inv_start frame_inv_start by blast
  have step: "?I s1" if "?I s" "pos s < ?n" "admit_step e enc b s = Some (0, s1)" for s s1
    using that idx_inv_step frame_inv_step by blast
  have dstep: "?I s1" if "?I s" "head s \<noteq> tail s" "flush_head e enc b s = Some (0, s1)" for s s1
    using that idx_inv_drain frame_inv_flush by blast
  from run have "mapf s' = header dev ?n b \<and> open_fds s' = ?O \<and>
      (\<exists>m. errlog s' = errlog s0 @ [m]) \<and> bounded (trace s')"
  proof (elim disjE conjE exE)
    fix r
    assume al: "admit_loop e enc b (start_state e dev enc b s0) = Some (r, s')" and r: "r \<noteq> 0"
    have "(r = 0 \<and> ?I s' \<and> ?n \<le> pos s') \<or>
        (r = - 1 \<and> (\<exists>s1 r1. ?I s1 \<and> pos s1 < ?n \<and> r1 \<noteq> 0 \<and>
                              admit_step e enc b s1 = Some (r1, s')))"
      by (rule admit_loop_rule [where I = ?I, OF al I0]) (rule step)
    with r obtain s1 r1 where "?I s1" "r1 \<noteq> 0" "admit_step e enc b s1 = Some (r1, s')" by blast
    then have "?F s1" "idx_inv e enc b s1" by blast+
    from step_fail_frame [OF this \<open>admit_step e enc b s1 = Some (r1, s')\<close> \<open>r1 \<noteq> 0\<close>]
    show ?thesis by blast
  next
    fix s5 r'
    assume al: "admit_loop e enc b (start_state e dev enc b s0) = Some (0, s5)"
      and dl: "drain_loop e enc b s5 = Some (r', s')" and r: "r' \<noteq> 0"
    have "(0 = (0::int) \<and> ?I s5 \<and> ?n \<le> pos s5) \<or>
        (0 = (- 1 :: int) \<and> (\<exists>s1 r1. ?I s1 \<and> pos s1 < ?n \<and> r1 \<noteq> 0 \<and>
                              admit_step e enc b s1 = Some (r1, s5)))"
      by (rule admit_loop_rule [where I = ?I, OF al I0]) (rule step)
    then have I5: "?I s5" by simp
    have "(r' = 0 \<and> ?I s' \<and> head s' = tail s') \<or>
        (r' = - 1 \<and> (\<exists>s1 r1. ?I s1 \<and> head s1 \<noteq> tail s1 \<and> r1 \<noteq> 0 \<and>
                              flush_head e enc b s1 = Some (r1, s')))"
      by (rule drain_loop_rule [where I = ?I, OF dl I5]) (rule dstep)
    with r obtain s1 r1 where "?I s1" "r1 \<noteq> 0" "flush_head e enc b s1 = Some (r1, s')" by blast
    then have F1: "?F s1" and "idx_inv e enc b s1" by blast+
    then have "bounded (trace s1)" by (simp add: idx_invD)
    from flush_fail_frame [OF F1 this \<open>flush_head e enc b s1 = Some (r1, s')\<close> \<open>r1 \<noteq> 0\<close>]
    show ?thesis by blast
  qed
  then show "mapf s' = header dev ?n b" "open_fds s' = ?O"
    "\<exists>m. errlog s' = errlog s0 @ [m]" "bounded (trace s')"
    by blast+
qed

section \<open>The pass as a whole\<close>

lemma pass_success:
  assumes run: "produce_block_map e dev enc s0 = Some (0, s')"
  obtains b where "stat_blksize e = Some b" "0 < b" "fopen_ok e" "open_src_ok e"
    "enc \<longrightarrow> open_dev_ok e"
    "head_block s' = logical_blocks (length (src_data e)) b"
    "\<forall>j<logical_blocks (length (src_data e)) b. fibmap e j \<noteq> None"
    "resolutions (trace s') =
       map (\<lambda>j. (j, the (fibmap e j))) [0..<logical_blocks (length (src_data e)) b]"
    "rng s' = foldl add_block_to_ranges (init_ranges (rng s0))
       (map (\<lambda>j. the (fibmap e j)) [0..<logical_blocks (length (src_data e)) b])"
    "mapf s' = header dev (length (src_data e)) b @ show_int (int (range_used (rng s'))) @ [nl]
       @ range_lines (rng s')"
    "errlog s' = errlog s0"
    "open_fds s' = open_fds s0 - {MapStream, SrcFd} - (if enc then {DevFd} else {})"
    "bounded (trace s')"
    "flushed_slots (trace s') = admitted_slots (trace s')"
    "admitted_slots (trace s') =
       map (\<lambda>j. j mod WINDOW_SIZE) [0..<logical_blocks (length (src_data e)) b]"
proof -
  from run obtain b s5 s6 where p: "stat_blksize e = Some b" "0 < b" "fopen_ok e" "open_src_ok e"
    "enc \<longrightarrow> open_dev_ok e"
    and al: "admit_loop e enc b (start_state e dev enc b s0) = Some (0, s5)"
    and dl: "drain_loop e enc b s5 = Some (0, s6)" and s': "s' = finish enc s6"
    by (rule pass_success_unfold)
  note L = loops_done [OF p(2) al dl]
  note D = idx_invD [OF L(3)]
  from L(4) have R: "\<forall>j<head_block s6. fibmap e j \<noteq> None"
    "resolutions (trace s6) = map (\<lambda>j. (j, the (fibmap e j))) [0..<head_block s6]"
    "rng s6 = foldl add_block_to_ranges (init_ranges (rng s0))
       (map (\<lambda>j. the (fibmap e j)) [0..<head_block s6])"
    by (simp_all add: res_inv_def)
  from L(5) have F: "mapf s6 = header dev (length (src_data e)) b" "errlog s6 = errlog s0"
    "open_fds s6 = (if enc then {MapStream, SrcFd, DevFd} else {MapStream, SrcFd}) \<union> open_fds s0"
    by (simp_all add: frame_inv_def)
  have fifo: "flushed_slots (trace s6) = admitted_slots (trace s6)"
    using D(11,12) L(2) by (intro nth_equalityI) (simp_all add: D(1))
  show ?thesis
  proof (rule that [of b])
    show "head_block s' = logical_blocks (length (src_data e)) b"
      by (simp add: s' finish_fields L(1))
    show "\<forall>j<logical_blocks (length (src_data e)) b. fibmap e j \<noteq> None"
      using R(1) by (simp add: L(1))
    show "resolutions (trace s') =
       map (\<lambda>j. (j, the (fibmap e j))) [0..<logical_blocks (length (src_data e)) b]"
      using R(2) by (simp add: s' finish_fields L(1))
    show "rng s' = foldl add_block_to_ranges (init_ranges (rng s0))
       (map (\<lambda>j. the (fibmap e j)) [0..<logical_blocks (length (src_data e)) b])"
      using R(3) by (simp add: s' finish_fields L(1))
    show "mapf s' = header dev (length (src_data e)) b @ show_int (int (range_used (rng s'))) @ [nl]
       @ range_lines (rng s')"
      by (simp add: s' finish_fields F(1))
    show "errlog s' = errlog s0" by (simp add: s' finish_fields F(2))
    show "open_fds s' = open_fds s0 - {MapStream, SrcFd} - (if enc then {DevFd} else {})"
      unfolding s' finish_fields F(3) by auto
    show "bounded (trace s')" by (simp add: s' finish_fields D(10))
    show "flushed_slots (trace s') = admitted_slots (trace s')"
      by (simp add: s' finish_fields fifo)
    show "admitted_slots (trace s') =
       map (\<lambda>j. j mod WINDOW_SIZE) [0..<logical_blocks (length (src_data e)) b]"
      using D(12) by (simp add: s' finish_fields fifo [symmetric] L(1))
  qed (fact p)+
qed

lemma pass_failure:
  assumes run: "produce_block_map e dev enc s0 = Some (r, s')" and r: "r \<noteq> 0"
  shows "r = - 1" and "\<exists>m. errlog s' = errlog s0 @ [m]" and "bounded (trace s')"
    and "stat_blksize e = None \<Longrightarrow>
           mapf s' = (if fopen_ok e then [] else mapf s0) \<and>
           open_fds s' = (if fopen_ok e then insert MapStream (open_fds s0) else open_fds s0)"
    and "\<And>b. stat_blksize e = Some b \<Longrightarrow>
           fopen_ok e \<and> 0 < b \<and> mapf s' = header dev (length (src_data e)) b \<and>
           open_fds s' =
             (if \<not> open_src_ok e then {MapStream}
              else if enc \<and> \<not> open_dev_ok e then {MapStream, SrcFd}
              else if enc then {MapStream, SrcFd, DevFd} else {MapStream, SrcFd}) \<union> open_fds s0"
proof -
  let ?n = "length (src_data e)"
  have "r = - 1 \<and> (\<exists>m. errlog s' = errlog s0 @ [m]) \<and> bounded (trace s') \<and>
        (stat_blksize e = None \<longrightarrow>
           mapf s' = (if fopen_ok e then [] else mapf s0) \<and>
           open_fds s' = (if fopen_ok e then insert MapStream (open_fds s0) else open_fds s0)) \<and>
        (\<forall>b. stat_blksize e = Some b \<longrightarrow>
           fopen_ok e \<and> 0 < b \<and> mapf s' = header dev ?n b \<and>
           open_fds s' =
             (if \<not> open_src_ok e then {MapStream}
              else if enc \<and> \<not> open_dev_ok e then {MapStream, SrcFd}
              else if enc then {MapStream, SrcFd, DevFd} else {MapStream, SrcFd}) \<union> open_fds s0)"
  proof (cases "stat_blksize e")
    case None
    with run show ?thesis
      by (auto simp: produce_block_map_def Let_def bounded_Nil)
  next
    case (Some b)
    from run Some have b0: "0 < b" by (cases "b = 0") (auto simp: produce_block_map_def)
    from run Some b0 have fo: "fopen_ok e"
      by (cases "fopen_ok e") (auto simp: produce_block_map_def Let_def)
    show ?thesis
    proof (cases "open_src_ok e")
      case False
      with run Some b0 fo show ?thesis
        by (auto simp: produce_block_map_def Let_def bounded_Nil)
    next
      case os: True
      show ?thesis
      proof (cases "enc \<and> \<not> open_dev_ok e")
        case True
        with run Some b0 fo os show ?thesis
          by (auto simp: produce_block_map_def Let_def bounded_Nil)
      next
        case False
        then have od: "enc \<Longrightarrow> open_dev_ok e" by simp
        from run r have
          "(\<exists>r. admit_loop e enc b (start_state e dev enc b s0) = Some (r, s') \<and> r \<noteq> 0) \<or>
           (\<exists>s5 r'. admit_loop e enc b (start_state e dev enc b s0) = Some (0, s5) \<and>
                 drain_loop e enc b s5 = Some (r', s') \<and> r' \<noteq> 0)"
          and "r = - 1"
          by (auto simp: pass_unfold [OF Some b0 fo os od] split: option.splits if_splits prod.splits)
        from loops_failed [OF b0 this(1)] \<open>r = - 1\<close> Some b0 fo os False show ?thesis
          by auto
      qed
    qed
  qed
  then show "r = - 1" and "\<exists>m. errlog s' = errlog s0 @ [m]" and "bounded (trace s')"
    and "stat_blksize e = None \<Longrightarrow>
           mapf s' = (if fopen_ok e then [] else mapf s0) \<and>
           open_fds s' = (if fopen_ok e then insert MapStream (open_fds s0) else open_fds s0)"
    and "\<And>b. stat_blksize e = Some b \<Longrightarrow>
           fopen_ok e \<and> 0 < b \<and> mapf s' = header dev (length (src_data e)) b \<and>
           open_fds s' =
             (if \<not> open_src_ok e then {MapStream}
              else if enc \<and> \<not> open_dev_ok e then {MapStream, SrcFd}
              else if enc then {MapStream, SrcFd, DevFd} else {MapStream, SrcFd}) \<union> open_fds s0"
    by blast+
qed

section \<open>When the pass returns\<close>

lemma good_script_Cons: "good_script (x # sc) \<longleftrightarrow> (\<exists>c>0. x = IOBytes c) \<and> good_script sc"
  by (simp add: good_script_def)

lemma write_loop_returns:
  assumes "good_script sc" "len - w \<le> length sc"
  shows "\<exists>d' rest. write_loop buf len w d sc = Some (0, d', rest) \<and> good_script rest \<and>
           length sc \<le> length rest + (len - w)"
  using assms
proof (induction sc arbitrary: w d)
  case Nil
  then show ?case by simp
next
  case (Cons x sc)
  show ?case
  proof (cases "w < len")
    case False
    with Cons.prems show ?thesis by simp
  next
    case True
    from Cons.prems(1) obtain c where c: "0 < c" "x = IOBytes c" and g: "good_script sc"
      by (auto simp: good_script_Cons)
    define k where "k = min c (len - w)"
    have k: "0 < k" "w + k \<le> len" using c True by (simp_all add: k_def)
    with Cons.prems(2) have "len - (w + k) \<le> length sc" by simp
    from Cons.IH [OF g this, of "dev_store d buf w k"] obtain d' rest where
      "write_loop buf len (w + k) (dev_store d buf w k) sc = Some (0, d', rest)"
      "good_script rest" "length sc \<le> length rest + (len - (w + k))"
      by blast
    with True c k show ?thesis by (simp add: k_def [symmetric] Let_def)
  qed
qed

lemma read_loop_returns:
  assumes "good_script sc" "min (b - sf) (length dat - p) \<le> length sc"
  shows "\<exists>buf' sf' p' rest. read_loop dat b buf sf p p sc = Some (0, buf', sf', p', p', rest) \<and>
           good_script rest \<and> length sc + p \<le> length rest + p'"
  using assms
proof (induction sc arbitrary: buf sf p)
  case Nil
  then show ?case by auto
next
  case (Cons x sc)
  show ?case
  proof (cases "sf < b \<and> p < length dat")
    case False
    with Cons.prems show ?thesis by auto
  next
    case True
    from Cons.prems(1) obtain c where c: "0 < c" "x = IOBytes c" and g: "good_script sc"
      by (auto simp: good_script_Cons)
    define k where "k = min (min c (b - sf)) (length dat - p)"
    have k: "0 < k" "sf + k \<le> b" "p + k \<le> length dat" using c True by (auto simp: k_def)
    with Cons.prems(2) have "min (b - (sf + k)) (length dat - (p + k)) \<le> length sc" by simp
    from Cons.IH [OF g this] obtain buf' sf' p' rest where
      "read_loop dat b (\<lambda>i. if sf \<le> i \<and> i < sf + k then dat ! (p + (i - sf)) else buf i)
         (sf + k) (p + k) (p + k) sc = Some (0, buf', sf', p', p', rest)"
      "good_script rest" "length sc + (p + k) \<le> length rest + p'"
      by blast
    with True c k show ?thesis by (simp add: k_def [symmetric] Let_def)
  qed
qed


lemma flush_head_returns:
  assumes "fibmap e (head_block s) \<noteq> None"
    and "enc \<longrightarrow> good_script (wscript s) \<and> b \<le> length (wscript s)"
  shows "\<exists>s1. flush_head e enc b s = Some (0, s1) \<and> rscript s1 = rscript s \<and>
           (enc \<longrightarrow> good_script (wscript s1) \<and> length (wscript s) \<le> length (wscript s1) + b)"
proof -
  from assms(1) obtain p where p: "fibmap e (head_block s) = Some p" by auto
  show ?thesis
  proof (cases enc)
    case False
    with p show ?thesis by (simp add: flush_head_def Let_def)
  next
    case True
    with assms(2) have "good_script (wscript s)" "b - 0 \<le> length (wscript s)" by simp_all
    from write_loop_returns [OF this, of "buffers s (head s)" "lseek64 (wdev s) (int b * p)"]
    obtain d' rest where
      "write_at_offset (buffers s (head s)) b (wdev s) (int b * p) (wscript s) = Some (0, d', rest)"
      "good_script rest" "length (wscript s) \<le> length rest + b"
      by (auto simp: write_at_offset_def)
    with True p show ?thesis by (simp add: flush_head_def Let_def)
  qed
qed

lemma read_next_returns:
  assumes "enc \<longrightarrow> good_script (rscript s) \<and> src_pos s = pos s \<and>
             min b (length (src_data e) - pos s) \<le> length (rscript s)"
  shows "\<exists>s1. read_next e enc b s = Some (0, s1) \<and> wscript s1 = wscript s \<and>
           (enc \<longrightarrow> good_script (rscript s1) \<and>
              length (rscript s) + pos s \<le> length (rscript s1) + pos s1)"
proof (cases enc)
  case False
  then show ?thesis by (simp add: read_next_def)
next
  case True
  with assms have "good_script (rscript s)" "src_pos s = pos s"
    "min (b - 0) (length (src_data e) - pos s) \<le> length (rscript s)" by simp_all
  from read_loop_returns [OF this(1,3), of "buffers s (tail s)"] this(2)
  obtain buf' sf' p' rest where
    "read_loop (src_data e) b (buffers s (tail s)) 0 (pos s) (src_pos s) (rscript s)
       = Some (0, buf', sf', p', p', rest)"
    "good_script rest" "length (rscript s) + pos s \<le> length rest + p'"
    by auto
  with True show ?thesis by (simp add: read_next_def Let_def)
qed

lemma admitted_le_blocks:
  assumes "0 < b" "0 < a" "(a - 1) * b < n"
  shows "a \<le> logical_blocks n b"
proof -
  from assms have "(a - 1) * b + b \<le> n + b - 1" by simp
  then have "a * b \<le> n + b - 1" using assms(2) by (cases a) simp_all
  then have "a * b div b \<le> (n + b - 1) div b" by (rule div_le_mono)
  with assms(1) show ?thesis by (simp add: logical_blocks_def)
qed

lemma flush_supplied:
  assumes b0: "0 < b" and I: "idx_inv e enc b s" and S: "supplied e enc b s"
    and lt: "head_block s < length (admitted_slots (trace s))"
  shows "\<exists>s1. flush_head e enc b s = Some (0, s1) \<and> supplied e enc b s1"
proof -
  note D = idx_invD [OF I]
  let ?N = "logical_blocks (length (src_data e)) b"
  from lt have a0: "0 < length (admitted_slots (trace s))" by (rule le_less_trans [OF le0])
  from admitted_le_blocks [OF b0 a0 D(9) [OF a0]]
  have "length (admitted_slots (trace s)) \<le> ?N" .
  with lt have hN: "head_block s < ?N" by simp
  with S have f: "fibmap e (head_block s) \<noteq> None" by (simp add: supplied_def)
  from hN have bb: "b \<le> (?N - head_block s) * b" by (cases "?N - head_block s") simp_all
  have w: "enc \<longrightarrow> good_script (wscript s) \<and> b \<le> length (wscript s)"
  proof
    assume enc
    with S have "good_script (wscript s)" "(?N - head_block s) * b \<le> length (wscript s)"
      by (simp_all add: supplied_def)
    with bb show "good_script (wscript s) \<and> b \<le> length (wscript s)"
      by (blast intro: le_trans)
  qed
  from flush_head_returns [OF f w] obtain s1 where
    fl: "flush_head e enc b s = Some (0, s1)" and rs: "rscript s1 = rscript s"
    and ws: "enc \<longrightarrow> good_script (wscript s1) \<and> length (wscript s) \<le> length (wscript s1) + b"
    by blast
  from fl obtain p where hp: "head_block s1 = head_block s + 1" "pos s1 = pos s"
    by (rule flush_head_ok)
  have "?N - head_block s = Suc (?N - head_block s1)" using hN by (simp add: hp)
  then have "(?N - head_block s1) * b + b = (?N - head_block s) * b" by simp
  with S ws have "enc \<longrightarrow> (?N - head_block s1) * b \<le> length (wscript s1)"
    by (auto simp: supplied_def)
  with S ws rs hp have "supplied e enc b s1" by (simp add: supplied_def)
  with fl show ?thesis by blast
qed

lemma admit_step_returns:
  assumes b0: "0 < b" and I: "idx_inv e enc b s" and S: "supplied e enc b s"
    and more: "pos s < length (src_data e)"
  shows "\<exists>s2. admit_step e enc b s = Some (0, s2) \<and> idx_inv e enc b s2 \<and> supplied e enc b s2 \<and>
           pos s < pos s2"
proof -
  note D = idx_invD [OF I]
  let ?n = "length (src_data e)"
  let ?a = "length (admitted_slots (trace s))"
  obtain s1 where
    fl: "if (tail s + 1) mod WINDOW_SIZE = head s then flush_head e enc b s = Some (0, s1) else s1 = s"
    and S1: "supplied e enc b s1"
  proof (cases "(tail s + 1) mod WINDOW_SIZE = head s")
    case True
    with D(4,5) window_full_iff [OF D(2,3)] have "?a + 1 = head_block s + WINDOW_SIZE" by simp
    then have "head_block s < ?a" by (simp add: WINDOW_SIZE_def)
    from flush_supplied [OF b0 I S this] True that show ?thesis by auto
  next
    case False
    with S that show ?thesis by simp
  qed
  note mid = admit_step_mid [OF I fl]
  note D1 = idx_invD [OF mid(1)]
  let ?s = "s1\<lparr>trace := trace s1 @ [SlotAdmitted (tail s1)]\<rparr>"
  have "enc \<longrightarrow> good_script (rscript ?s) \<and> src_pos ?s = pos ?s \<and>
             min b (?n - pos ?s) \<le> length (rscript ?s)"
    using S1 D1(7) by (auto simp: supplied_def)
  from read_next_returns [OF this] obtain sr where
    rd: "read_next e enc b ?s = Some (0, sr)" and ws: "wscript sr = wscript ?s"
    and rs: "enc \<longrightarrow> good_script (rscript sr) \<and>
              length (rscript ?s) + pos ?s \<le> length (rscript sr) + pos sr"
    by blast
  define s2 where "s2 = sr\<lparr>tail := (tail sr + 1) mod WINDOW_SIZE\<rparr>"
  have st: "admit_step e enc b s = Some (0, s2)"
    using fl rd by (cases "(tail s + 1) mod WINDOW_SIZE = head s") (simp_all add: admit_step_def s2_def)
  have I2: "idx_inv e enc b s2" by (rule idx_inv_step [OF I more st])
  from rd obtain k where hb: "head_block sr = head_block ?s" by (rule read_next_ok)
  have "enc \<longrightarrow> ?n - pos s2 \<le> length (rscript s2)"
    using rs S1 by (auto simp: supplied_def s2_def)
  with S1 ws rs hb have S2: "supplied e enc b s2" by (simp add: supplied_def s2_def)
  have ad: "admitted_slots (trace s2) = admitted_slots (trace s) @ [tail s1]"
    using rd mid(4) by (auto simp: s2_def elim!: read_next_ok)
  note D2 = idx_invD [OF I2]
  have "pos s < pos s2"
  proof (cases enc)
    case True
    with D(6) more have "pos s = ?a * b" "?a * b < ?n" by simp_all
    moreover from True D2(6) have "pos s2 = min (Suc ?a * b) ?n" by (simp add: ad)
    ultimately show ?thesis using b0 by simp
  next
    case False
    with D(8) D2(8) b0 show ?thesis by (simp add: ad)
  qed
  with st I2 S2 show ?thesis by blast
qed

lemma admit_loop_returns:
  assumes b0: "0 < b"
  shows "idx_inv e enc b s \<Longrightarrow> supplied e enc b s \<Longrightarrow>
         \<exists>s'. admit_loop e enc b s = Some (0, s') \<and> idx_inv e enc b s' \<and> supplied e enc b s'"
proof (induction "length (src_data e) - pos s" arbitrary: s rule: less_induct)
  case less
  show ?case
  proof (cases "pos s < length (src_data e)")
    case False
    with less.prems show ?thesis by (subst admit_loop.simps) simp
  next
    case True
    from admit_step_returns [OF b0 less.prems True] obtain s2 where
      st: "admit_step e enc b s = Some (0, s2)" and I2: "idx_inv e enc b s2"
      and S2: "supplied e enc b s2" and p: "pos s < pos s2"
      by blast
    from p True have "length (src_data e) - pos s2 < length (src_data e) - pos s" by simp
    from less.hyps [OF this I2 S2] obtain s' where
      "admit_loop e enc b s2 = Some (0, s')" "idx_inv e enc b s'" "supplied e enc b s'"
      by blast
    with True st show ?thesis by (subst admit_loop.simps) simp
  qed
qed

lemma drain_loop_returns:
  assumes b0: "0 < b"
  shows "idx_inv e enc b s \<Longrightarrow> supplied e enc b s \<Longrightarrow> \<exists>s'. drain_loop e enc b s = Some (0, s')"
proof (induction "length (admitted_slots (trace s)) - head_block s" arbitrary: s rule: less_induct)
  case less
  note D = idx_invD [OF less.prems(1)]
  show ?case
  proof (cases "head s \<noteq> tail s")
    case False
    then show ?thesis by (subst drain_loop.simps) simp
  next
    case True
    with D(4,5) window_empty_iff [OF D(2,3)] D(2)
    have lt: "head_block s < length (admitted_slots (trace s))" by auto
    from flush_supplied [OF b0 less.prems lt] obtain s1 where
      fl: "flush_head e enc b s = Some (0, s1)" and S1: "supplied e enc b s1"
      by blast
    note F = idx_inv_flush [OF less.prems(1) lt fl]
    from F(2,3) lt
    have "length (admitted_slots (trace s1)) - head_block s1
            < length (admitted_slots (trace s)) - head_block s" by simp
    from less.hyps [OF this F(1) S1] obtain s' where "drain_loop e enc b s1 = Some (0, s')"
      by blast
    with True fl show ?thesis by (subst drain_loop.simps) simp
  qed
qed

text \<open>The pass returns 0 when nothing fails and the scripts offer enough.\<close>

lemma pass_returns:
  assumes "stat_blksize e = Some b" "0 < b" "fopen_ok e" "open_src_ok e" "enc \<longrightarrow> open_dev_ok e"
    and "\<forall>j<logical_blocks (length (src_data e)) b. fibmap e j \<noteq> None"
    and "enc \<longrightarrow> good_script (rscript s0) \<and> good_script (wscript s0) \<and>
           length (src_data e) \<le> length (rscript s0) \<and>
           logical_blocks (length (src_data e)) b * b \<le> length (wscript s0)"
  shows "\<exists>s'. produce_block_map e dev enc s0 = Some (0, s')"
proof -
  have S: "supplied e enc b (start_state e dev enc b s0)"
    using assms(6,7) by (simp add: supplied_def start_state_fields)
  from admit_loop_returns [OF assms(2) idx_inv_start S] obtain s5 where
    al: "admit_loop e enc b (start_state e dev enc b s0) = Some (0, s5)"
    and "idx_inv e enc b s5" "supplied e enc b s5"
    by blast
  from drain_loop_returns [OF assms(2) this(2,3)] obtain s6 where
    "drain_loop e enc b s5 = Some (0, s6)" by blast
  with al show ?thesis
    using assms(5) by (simp add: pass_unfold [OF assms(1,2,3,4)])
qed

section \<open>The worked examples\<close>

lemma small_env_simps:
  "stat_blksize small_env = Some 4" "length (src_data small_env) = 13"
  "fopen_ok small_env" "open_src_ok small_env" "open_dev_ok small_env"
  "logical_blocks 13 4 = 4"
  "fibmap small_env j = (if j < 4 then Some ([10, 11, 3, 7] ! j) else None)"
  by (simp_all add: small_env_def logical_blocks_def)

lemma small_env_blocks: "map (\<lambda>j. the (fibmap small_env j)) [0..<4] = [10, 11, 3, 7]"
  by (simp add: small_env_simps upt_rec)

lemma example_state_scripts:
  "good_script (rscript example_state)" "good_script (wscript example_state)"
  "length (rscript example_state) = 40" "length (wscript example_state) = 40"
  by (auto simp: example_state_def good_script_def)

lemma small_env_returns:
  "\<exists>s'. produce_block_map small_env dev enc example_state = Some (0, s')"
  by (rule pass_returns [where b = 4]) (simp_all add: small_env_simps example_state_scripts)

section \<open>The block map of a successful pass\<close>

lemma expand_init: "expand (range_list (init_ranges r)) = []"
  by (simp add: expand_def range_list_def init_ranges_def)

lemma expand_coalesced:
  assumes "\<forall>b\<in>set bs. phys_block b"
  shows "expand (range_list (foldl add_block_to_ranges (init_ranges r) bs)) = bs"
proof (cases "bs = []")
  case True
  then show ?thesis by (simp add: expand_init)
next
  case False
  with coalesced_pass [OF assms, of r] show ?thesis by (simp add: coalesced_def)
qed

text \<open>
  Claim C1. For every file and every resolver that answers with physical block numbers,
  a pass that returns 0 has queried the resolver for the logical blocks \<open>0, 1, ..., N - 1\<close>,
  each once and in that order, \<open>N\<close> being the number of logical blocks of the file,
  and every query was answered; and the range list it ends with, each range listed from
  its start to the block before its end, is exactly the sequence of the answers: no
  block is dropped, doubled or out of place. (This holds for \<open>N = 0\<close> as well.)
\<close>

theorem pass_resolves_in_order:
  assumes run: "produce_block_map e dev enc s0 = Some (0, s')"
    and st: "stat_blksize e = Some b"
    and ph: "\<forall>j<logical_blocks (length (src_data e)) b. \<forall>p. fibmap e j = Some p \<longrightarrow> phys_block p"
  shows "(\<forall>j<logical_blocks (length (src_data e)) b. fibmap e j \<noteq> None) \<and>
         resolutions (trace s') =
           map (\<lambda>j. (j, the (fibmap e j))) [0..<logical_blocks (length (src_data e)) b] \<and>
         expand (range_list (rng s')) =
           map (\<lambda>j. the (fibmap e j)) [0..<logical_blocks (length (src_data e)) b]"
proof -
  let ?N = "logical_blocks (length (src_data e)) b"
  let ?bs = "map (\<lambda>j. the (fibmap e j)) [0..<?N]"
  from run obtain b' where "stat_blksize e = Some b'"
    and d: "\<forall>j<logical_blocks (length (src_data e)) b'. fibmap e j \<noteq> None"
    and rs: "resolutions (trace s') =
       map (\<lambda>j. (j, the (fibmap e j))) [0..<logical_blocks (length (src_data e)) b']"
    and rg: "rng s' = foldl add_block_to_ranges (init_ranges (rng s0))
       (map (\<lambda>j. the (fibmap e j)) [0..<logical_blocks (length (src_data e)) b'])"
    by (rule pass_success)
  with st have b: "b' = b" by simp
  have "\<forall>x\<in>set ?bs. phys_block x" using ph d unfolding b by auto
  from expand_coalesced [OF this] have "expand (range_list (rng s')) = ?bs"
    unfolding rg b .
  with d rs show ?thesis unfolding b by blast
qed


theorem pass_resolves_in_order_witness:
  "\<exists>s'. produce_block_map small_env ''/dev/block/sda'' True example_state = Some (0, s') \<and>
        stat_blksize small_env = Some 4 \<and>
        (\<forall>j<logical_blocks (length (src_data small_env)) 4.
            \<forall>p. fibmap small_env j = Some p \<longrightarrow> phys_block p) \<and>
        resolutions (trace s') = [(0, 10), (1, 11), (2, 3), (3, 7)] \<and>
        expand (range_list (rng s')) = [10, 11, 3, 7]"
proof -
  from small_env_returns obtain s' where
    run: "produce_block_map small_env ''/dev/block/sda'' True example_state = Some (0, s')"
    by blast
  have st: "stat_blksize small_env = Some 4" by (simp add: small_env_simps)
  have ph: "\<forall>j<logical_blocks (length (src_data small_env)) 4.
            \<forall>p. fibmap small_env j = Some p \<longrightarrow> phys_block p"
    by (auto simp: small_env_simps phys_block_def nth_Cons split: nat.splits)
  from pass_resolves_in_order [OF run st ph]
  have "resolutions (trace s') = map (\<lambda>j. (j, the (fibmap small_env j))) [0..<4]"
    and "expand (range_list (rng s')) = map (\<lambda>j. the (fibmap small_env j)) [0..<4]"
    by (simp_all add: small_env_simps(2,6))
  then have "resolutions (trace s') = [(0, 10), (1, 11), (2, 3), (3, 7)]"
    and "expand (range_list (rng s')) = [10, 11, 3, 7]"
    by (simp_all add: small_env_simps(7) upt_rec)
  with run st ph show ?thesis by blast
qed

lemma agree_init: "ranges_agree (init_ranges r) (init_ranges r')"
  by (simp add: ranges_agree_def init_ranges_def)

lemma agree_step:
  assumes "ranges_agree r r'"
  shows "ranges_agree (add_block_to_ranges r b) (add_block_to_ranges r' b)"
proof -
  from assms obtain n where n: "range_used r = Suc n" "range_used r' = Suc n"
    by (cases "range_used r") (auto simp: ranges_agree_def)
  from assms n have al: "range_alloc r = range_alloc r'"
    and eq: "\<forall>i<Suc n * 2. ranges r i = ranges r' i"
    by (simp_all add: ranges_agree_def)
  from eq have e2: "ranges r (n * 2) = ranges r' (n * 2)" "ranges r (Suc (n * 2)) = ranges r' (Suc (n * 2))"
    by simp_all
  show ?thesis
    using n al eq e2
    by (auto simp: ranges_agree_def add_block_to_ranges_def Let_def)
qed

lemma agree_foldl:
  "ranges_agree r r' \<Longrightarrow>
     ranges_agree (foldl add_block_to_ranges r bs) (foldl add_block_to_ranges r' bs)"
  by (induction bs arbitrary: r r') (simp_all add: agree_step)

lemma agree_range_list: "ranges_agree r r' \<Longrightarrow> range_list r = range_list r'"
  by (auto simp: ranges_agree_def range_list_def)

text \<open>
  Claim C10. Two passes over the same file, with the same resolver and device path, one
  with the encrypted flag and one without, that both return 0 write the same map: the
  same header lines, the same range count and the same range lines. Whatever else
  differs between the two calls (the device, the scripts, the contents of memory before
  the call) has no part in it.
\<close>

theorem flag_does_not_change_map:
  assumes "produce_block_map e dev True s0 = Some (0, s1)"
    and "produce_block_map e dev False s0' = Some (0, s2)"
  shows "mapf s1 = mapf s2 \<and> range_list (rng s1) = range_list (rng s2) \<and>
         range_used (rng s1) = range_used (rng s2)"
proof -
  let ?n = "length (src_data e)"
  from assms(1) obtain b where b: "stat_blksize e = Some b"
    and r1: "rng s1 = foldl add_block_to_ranges (init_ranges (rng s0))
       (map (\<lambda>j. the (fibmap e j)) [0..<logical_blocks ?n b])"
    and m1: "mapf s1 = header dev ?n b @ show_int (int (range_used (rng s1))) @ [nl]
       @ range_lines (rng s1)"
    by (rule pass_success)
  from assms(2) obtain b' where b': "stat_blksize e = Some b'"
    and r2: "rng s2 = foldl add_block_to_ranges (init_ranges (rng s0'))
       (map (\<lambda>j. the (fibmap e j)) [0..<logical_blocks ?n b'])"
    and m2: "mapf s2 = header dev ?n b' @ show_int (int (range_used (rng s2))) @ [nl]
       @ range_lines (rng s2)"
    by (rule pass_success)
  from b b' have bb: "b' = b" by simp
  have ag: "ranges_agree (rng s1) (rng s2)"
    unfolding r1 r2 bb by (intro agree_foldl agree_init)
  then have "range_list (rng s1) = range_list (rng s2)" "range_used (rng s1) = range_used (rng s2)"
    by (simp_all add: agree_range_list ranges_agree_def)
  then show ?thesis by (simp add: m1 m2 bb range_lines_def)
qed

theorem flag_does_not_change_map_witness:
  "\<exists>s1 s2. produce_block_map small_env ''/dev/block/sda'' True example_state = Some (0, s1) \<and>
     produce_block_map small_env ''/dev/block/sda'' False (example_state\<lparr>rscript := [], wscript := []\<rparr>)
       = Some (0, s2) \<and>
     mapf s1 = mapf s2 \<and> range_list (rng s1) = range_list (rng s2)"
proof -
  from small_env_returns obtain s1 where
    r1: "produce_block_map small_env ''/dev/block/sda'' True example_state = Some (0, s1)"
    by blast
  have "\<exists>s'. produce_block_map small_env ''/dev/block/sda'' False
           (example_state\<lparr>rscript := [], wscript := []\<rparr>) = Some (0, s')"
    by (rule pass_returns [where b = 4]) (simp_all add: small_env_simps)
  then obtain s2 where
    r2: "produce_block_map small_env ''/dev/block/sda'' False
           (example_state\<lparr>rscript := [], wscript := []\<rparr>) = Some (0, s2)"
    by blast
  from flag_does_not_change_map [OF r1 r2] r1 r2 show ?thesis by blast
qed

section \<open>The example of the source and the empty file\<close>

lemma show_examples:
  "show_int 49652 = ''49652''" "show_nat 4096 = ''4096''" "show_int 3 = ''3''"
  "show_int 1000 = ''1000''" "show_int 1008 = ''1008''" "show_int 2100 = ''2100''"
  "show_int 2102 = ''2102''" "show_int 30 = ''30''" "show_int 33 = ''33''"
  "show_int 0 = ''0''" "show_int 1 = ''1''" "show_int (- 1) = ''-1''"
  by (simp_all add: show_int_def show_nat.simps)

lemma example_ranges:
  "range_used (foldl add_block_to_ranges (init_ranges r) example_blocks) = 3"
  "range_list (foldl add_block_to_ranges (init_ranges r) example_blocks)
     = [(1000, 1008), (2100, 2102), (30, 33)]"
  by (simp_all add: example_blocks_def range_list_def add_block_to_ranges_def init_ranges_def
      wrap32_def Let_def upt_rec)


text \<open>
  Claim C4. A file of 49652 bytes with a block size of 4096 has 13 logical blocks. When
  the resolver answers 1000 to 1007, 2100, 2101, 30, 31, 32 for them, a pass that returns
  0 has written exactly the device path line, the line \<open>49652 4096\<close>, the line \<open>3\<close> and the
  range lines \<open>1000 1008\<close>, \<open>2100 2102\<close>, \<open>30 33\<close>, each ended by a newline, and nothing
  else. And the pass does return 0 when the files open, and, with the encrypted flag, the
  device opens and the reads and writes all succeed.
\<close>

theorem example_block_map:
  assumes st: "stat_blksize e = Some 4096" and sz: "length (src_data e) = 49652"
    and fm: "\<forall>j<13. fibmap e j = Some (example_blocks ! j)"
  shows "logical_blocks 49652 4096 = 13 \<and>
         (\<forall>s'. produce_block_map e blk_dev enc s0 = Some (0, s') \<longrightarrow>
                mapf s' = example_map blk_dev) \<and>
         (fopen_ok e \<and> open_src_ok e \<and>
          (enc \<longrightarrow> open_dev_ok e \<and> good_script (rscript s0) \<and> good_script (wscript s0) \<and>
                   49652 \<le> length (rscript s0) \<and> 53248 \<le> length (wscript s0)) \<longrightarrow>
          (\<exists>s'. produce_block_map e blk_dev enc s0 = Some (0, s')))"
proof (intro conjI allI impI)
  show N: "logical_blocks 49652 4096 = 13" by (simp add: logical_blocks_def)
  have bs: "map (\<lambda>j. the (fibmap e j)) [0..<13] = example_blocks"
    using fm by (intro nth_equalityI) (simp_all add: example_blocks_def)
  {
    fix s'
    assume run: "produce_block_map e blk_dev enc s0 = Some (0, s')"
    then obtain b where b: "stat_blksize e = Some b"
      and rg: "rng s' = foldl add_block_to_ranges (init_ranges (rng s0))
         (map (\<lambda>j. the (fibmap e j)) [0..<logical_blocks (length (src_data e)) b])"
      and mp: "mapf s' = header blk_dev (length (src_data e)) b
         @ show_int (int (range_used (rng s'))) @ [nl] @ range_lines (rng s')"
      by (rule pass_success)
    from b st have b4: "b = 4096" by simp
    have rg': "rng s' = foldl add_block_to_ranges (init_ranges (rng s0)) example_blocks"
      unfolding rg b4 sz N bs ..
    show "mapf s' = example_map blk_dev"
      unfolding mp b4 sz
      by (simp add: rg' example_ranges range_lines_def header_def show_examples example_map_def)
  }
  {
    assume ok: "fopen_ok e \<and> open_src_ok e \<and>
          (enc \<longrightarrow> open_dev_ok e \<and> good_script (rscript s0) \<and> good_script (wscript s0) \<and>
                   49652 \<le> length (rscript s0) \<and> 53248 \<le> length (wscript s0))"
    show "\<exists>s'. produce_block_map e blk_dev enc s0 = Some (0, s')"
      using ok fm by (intro pass_returns [where b = 4096]) (simp_all add: st sz N)
  }
qed

theorem example_block_map_witness:
  "stat_blksize example_env = Some 4096 \<and> length (src_data example_env) = 49652 \<and>
   map (fibmap example_env) [0..<13] = map Some example_blocks \<and>
   (\<exists>s'. produce_block_map example_env ''/dev/block/platform/msm_sdcc.1/by-name/userdata''
            False example_state = Some (0, s') \<and>
         mapf s' = ''/dev/block/platform/msm_sdcc.1/by-name/userdata'' @ [nl] @ ''49652 4096''
           @ [nl] @ ''3'' @ [nl] @ ''1000 1008'' @ [nl] @ ''2100 2102'' @ [nl] @ ''30 33'' @ [nl])"
proof -
  have st: "stat_blksize example_env = Some 4096"
    and sz: "length (src_data example_env) = 49652"
    and fm: "\<forall>j<13. fibmap example_env j = Some (example_blocks ! j)"
    and ok: "fopen_ok example_env" "open_src_ok example_env"
    by (simp_all add: example_env_def)
  note T = example_block_map [OF st sz fm,
      of "''/dev/block/platform/msm_sdcc.1/by-name/userdata''" False example_state]
  from T ok obtain s' where
    run: "produce_block_map example_env ''/dev/block/platform/msm_sdcc.1/by-name/userdata''
            False example_state = Some (0, s')"
    by blast
  with T have mp: "mapf s' = example_map ''/dev/block/platform/msm_sdcc.1/by-name/userdata''"
    by blast
  have len: "length example_blocks = 13" by (simp add: example_blocks_def)
  have eq: "map (fibmap example_env) [0..<13] = map Some example_blocks"
    using fm len by (intro nth_equalityI) simp_all
  show ?thesis using mp eq run st sz unfolding example_map_def by blast
qed

lemma zero_length_pass:
  assumes "stat_blksize e = Some b" "0 < b" "src_data e = []" "fopen_ok e" "open_src_ok e"
    "enc \<longrightarrow> open_dev_ok e"
  shows "map_output (produce_block_map e blk_dev enc s0)
           = Some (0, blk_dev @ [nl] @ ''0 '' @ show_nat b @ [nl] @ ''1'' @ [nl] @ ''-1 -1'' @ [nl])"
proof -
  have a: "admit_loop e enc b (start_state e blk_dev enc b s0)
             = Some (0, start_state e blk_dev enc b s0)"
    using assms(3) by (subst admit_loop.simps) simp
  have d: "drain_loop e enc b (start_state e blk_dev enc b s0)
             = Some (0, start_state e blk_dev enc b s0)"
    by (subst drain_loop.simps) (simp add: start_state_fields)
  show ?thesis
    using assms(3)
    by (simp add: pass_unfold [OF assms(1,2,4,5)] assms(6) a d map_output_def finish_fields
        start_state_fields header_def range_lines_def range_list_def init_ranges_def show_examples)
qed

text \<open>
  Claim C5 says that an empty file gives a map with the range count \<open>0\<close> and no range
  line. The pass succeeds, but what it writes is the range count \<open>1\<close> and the range line
  \<open>-1 -1\<close>: the unset range of lines 194 to 197, which no block ever replaces.
\<close>

theorem zero_length_file_map:
  "map_output (produce_block_map empty_env ''/dev/block/sda'' False example_state)
     = Some (0, ''/dev/block/sda'' @ [nl] @ ''0 4096'' @ [nl] @ ''1'' @ [nl] @ ''-1 -1'' @ [nl]) \<and>
   map_output (produce_block_map empty_env ''/dev/block/sda'' True example_state)
     = Some (0, ''/dev/block/sda'' @ [nl] @ ''0 4096'' @ [nl] @ ''1'' @ [nl] @ ''-1 -1'' @ [nl])"
proof -
  have "map_output (produce_block_map empty_env ''/dev/block/sda'' enc example_state)
     = Some (0, ''/dev/block/sda'' @ [nl] @ ''0 '' @ show_nat 4096 @ [nl] @ ''1'' @ [nl]
         @ ''-1 -1'' @ [nl])" for enc
    by (rule zero_length_pass) (simp_all add: empty_env_def)
  then show ?thesis by (simp add: show_examples)
qed

section \<open>The first failure of a pass\<close>





















section \<open>Failures, the window and the descriptors\<close>




text \<open>
  Claim C8. Throughout a pass, whatever its outcome, there are fewer window slots in use
  than the window has: at every moment of the trace the slots taken into use and not yet
  released number less than \<^verbatim>\<open>WINDOW_SIZE\<close> (and no slot is released that was not taken).
  When the pass returns 0, the slots were taken in turn round the window and released in
  the order they were taken, every one of them. This holds for files of any size.
\<close>

theorem window_never_full:
  assumes run: "produce_block_map e blk_dev enc s0 = Some (r, s')"
  shows "(\<forall>k\<le>length (trace s').
            length (flushed_slots (take k (trace s'))) \<le> length (admitted_slots (take k (trace s'))) \<and>
            in_flight (take k (trace s')) < WINDOW_SIZE) \<and>
         (r = 0 \<longrightarrow> flushed_slots (trace s') = admitted_slots (trace s') \<and>
            (\<forall>i<length (admitted_slots (trace s')). admitted_slots (trace s') ! i = i mod WINDOW_SIZE))"
proof -
  have "bounded (trace s')"
  proof (cases "r = 0")
    case True
    with run show ?thesis by (auto elim: pass_success)
  next
    case False
    from pass_failure(3) [OF run False] show ?thesis .
  qed
  moreover have "flushed_slots (trace s') = admitted_slots (trace s') \<and>
            (\<forall>i<length (admitted_slots (trace s')). admitted_slots (trace s') ! i = i mod WINDOW_SIZE)"
    if "r = 0"
  proof -
    from run that obtain b where "flushed_slots (trace s') = admitted_slots (trace s')"
      "admitted_slots (trace s') =
         map (\<lambda>j. j mod WINDOW_SIZE) [0..<logical_blocks (length (src_data e)) b]"
      by (auto elim: pass_success)
    then show ?thesis by simp
  qed
  ultimately show ?thesis unfolding bounded_def by blast
qed

theorem window_never_full_witness:
  "\<exists>s'. produce_block_map example_env ''/dev/block/sda'' False example_state = Some (0, s') \<and>
     length (admitted_slots (trace s')) = 13 \<and>
     (\<forall>k\<le>length (trace s').
        length (flushed_slots (take k (trace s'))) \<le> length (admitted_slots (take k (trace s'))) \<and>
        in_flight (take k (trace s')) < WINDOW_SIZE) \<and>
     flushed_slots (trace s') = admitted_slots (trace s')"
proof -
  have st: "stat_blksize example_env = Some 4096"
    and sz: "length (src_data example_env) = 49652"
    by (simp_all add: example_env_def)
  have "\<exists>s'. produce_block_map example_env ''/dev/block/sda'' False example_state = Some (0, s')"
    by (rule pass_returns [where b = 4096])
       (simp_all add: example_env_def logical_blocks_def)
  then obtain s' where
    run: "produce_block_map example_env ''/dev/block/sda'' False example_state = Some (0, s')"
    by blast
  from run obtain b where "stat_blksize example_env = Some b"
    "admitted_slots (trace s') =
         map (\<lambda>j. j mod WINDOW_SIZE) [0..<logical_blocks (length (src_data example_env)) b]"
    by (rule pass_success)
  with st sz have "length (admitted_slots (trace s')) = 13" by (simp add: logical_blocks_def)
  with window_never_full [OF run] run show ?thesis by blast
qed

text \<open>
  Claim C9 says that every exit path closes the descriptors the pass opened. Against it:
  when the block of a one byte file cannot be mapped, the pass with the encrypted flag
  returns \<open>-1\<close> with the map stream, the source file and the raw device all open.
\<close>

theorem descriptors_left_open_counterexample:
  "open_after (produce_block_map unmapped_env ''/dev/block/sda'' True example_state)
     = Some (- 1, {MapStream, SrcFd, DevFd})"
  by code_simp

text \<open>
  Claim C9, amended. A pass that returns 0 has closed every descriptor it opened: the
  map stream, the source file and, with the encrypted flag, the raw device. A pass that
  returns \<open>-1\<close> has closed none: the descriptors it had opened by then are open when it
  returns.
\<close>

theorem descriptors_closed_on_success:
  assumes run: "produce_block_map e blk_dev enc s0 = Some (r, s')"
  shows "(r = 0 \<and> open_fds s' = open_fds s0 - {MapStream, SrcFd} - (if enc then {DevFd} else {})) \<or>
         (r = - 1 \<and>
          open_fds s' = open_fds s0 \<union>
            (if \<not> fopen_ok e then {}
             else if stat_blksize e = None \<or> \<not> open_src_ok e then {MapStream}
             else if \<not> enc \<or> \<not> open_dev_ok e then {MapStream, SrcFd}
             else {MapStream, SrcFd, DevFd}))"
proof (cases "r = 0")
  case True
  with run obtain b where
    "open_fds s' = open_fds s0 - {MapStream, SrcFd} - (if enc then {DevFd} else {})"
    by (auto elim: pass_success)
  with True show ?thesis by simp
next
  case False
  note F = pass_failure [OF run False]
  have "open_fds s' = open_fds s0 \<union>
            (if \<not> fopen_ok e then {}
             else if stat_blksize e = None \<or> \<not> open_src_ok e then {MapStream}
             else if \<not> enc \<or> \<not> open_dev_ok e then {MapStream, SrcFd}
             else {MapStream, SrcFd, DevFd})"
  proof (cases "stat_blksize e")
    case None
    with F(4) show ?thesis by auto
  next
    case (Some b)
    from F(5) [OF Some] show ?thesis by (auto simp: Some)
  qed
  with F(1) show ?thesis by blast
qed

theorem descriptors_closed_on_success_witness:
  "\<exists>s'. produce_block_map small_env ''/dev/block/sda'' True example_state = Some (0, s') \<and>
     open_fds s' = {}"
proof -
  from small_env_returns obtain s' where
    run: "produce_block_map small_env ''/dev/block/sda'' True example_state = Some (0, s')"
    by blast
  from descriptors_closed_on_success [OF run] have "open_fds s' = {}"
    by (simp add: example_state_def)
  with run show ?thesis by blast
qed

section \<open>The shadow copy on the raw device\<close>






















end
